theory Spec2Isabelle
  imports Main "HOL-Library.Multiset" "HOL-Library.Signed_Division"
begin

section \<open>External merge sort: the sort engine of package extsort\<close>

text \<open>
  The engine of \<^verbatim>\<open>extsort/extsort.go\<close> is an \<^verbatim>\<open>io.WriteCloser\<close>: every \<^verbatim>\<open>Write\<close> hands it one
  record, the records are buffered, sorted and spilled to numbered temp files (runs), and
  \<^verbatim>\<open>Close\<close> merges the runs into the output.  The embedding below follows the Go source
  function by function.  What the Go code does to the outside world is made explicit:
  the temp directory is a map from file number to file content, the output sink is the list
  of the byte slices it was handed, and each I/O call that may fail takes its outcome from an
  explicit argument, so that every failure path of the source is a branch of the model.
\<close>

subsection \<open>Data\<close>

text \<open>A \<^verbatim>\<open>[]byte\<close>: Isabelle characters are bytes.\<close>

type_synonym bytes = string

text \<open>
  Go \<^verbatim>\<open>error\<close> values.  \<^verbatim>\<open>io.EOF\<close> is the one the engine compares against; \<open>IOError\<close> stands for
  any error handed out by the operating system or by a strategy function; \<open>Errorf f e\<close> is
  \<^verbatim>\<open>fmt.Errorf(f, e)\<close>, the wrapping the engine applies.
\<close>

datatype error = EOF | IOError string | Errorf string error

text \<open>How a call ends: it returns a value, or it panics with a value.\<close>

datatype 'a outcome = Return 'a | Panic error

text \<open>
  An open \<^verbatim>\<open>*bufio.Reader\<close> on a temp file is the content that is still unread; \<open>None\<close> is the
  \<^verbatim>\<open>nil\<close> reader that a lookup of a missing key in \<^verbatim>\<open>map[int]*bufio.Reader\<close> yields.
\<close>

type_synonym reader = "bytes option"

text \<open>
  \<^verbatim>\<open>type Chunk func(io.Reader) ([]byte, error)\<close>: the strategy returns the slice, the error and
  leaves the reader advanced; a strategy may also panic (any method call on a \<^verbatim>\<open>nil\<close>
  \<^verbatim>\<open>*bufio.Reader\<close> does).
\<close>

datatype chunked = Chunked bytes "error option" bytes | ChunkPanic error

type_synonym Chunk = "reader \<Rightarrow> chunked"

text \<open>\<^verbatim>\<open>type Less func(a1 []byte, a2 []byte) bool\<close>\<close>

type_synonym Less = "bytes \<Rightarrow> bytes \<Rightarrow> bool"

text \<open>
  The struct \<^verbatim>\<open>sortEngine\<close>.  The field \<open>tmpDir\<close> holds the content of the working directory
  the Go field names (file \<open>i\<close> is the file named \<^verbatim>\<open>strconv.Itoa(i)\<close>), and \<open>out\<close> holds what the
  \<^verbatim>\<open>io.Writer\<close> has received so far, one element per \<^verbatim>\<open>Write\<close> call on it.  The Go \<^verbatim>\<open>int\<close>
  fields are unbounded here: \<open>memUsed\<close> sums the lengths of slices that are all resident in
  memory, and \<open>tmpFilesNumber\<close> counts files created one at a time, so neither reaches
  \<open>2^63\<close>.
\<close>

record sortEngine =
  memLimit :: int
  memUsed :: int
  tmpDir :: "nat \<rightharpoonup> bytes"
  chunkFunc :: Chunk
  lessFunc :: Less
  out :: "bytes list"
  tmpFilesNumber :: nat
  memoryBuffer :: "bytes list"

text \<open>
  \<^verbatim>\<open>New\<close>: \<^verbatim>\<open>ioutil.TempDir\<close> creates a fresh, empty directory, or fails.  The first argument is
  the outcome of that call; \<open>out0\<close> is what the sink already holds.
\<close>

definition New :: "error option \<Rightarrow> bytes list \<Rightarrow> Chunk \<Rightarrow> Less \<Rightarrow> int \<Rightarrow> error + sortEngine" where
  "New tmpDirCreationErr out0 chunkF lessF lim =
     (case tmpDirCreationErr of
        Some e \<Rightarrow> Inl (Errorf ''cannot create working directory to store temp files: %s'' e)
      | None \<Rightarrow> Inr \<lparr> memLimit = lim, memUsed = 0, tmpDir = Map.empty, chunkFunc = chunkF,
                     lessFunc = lessF, out = out0, tmpFilesNumber = 0, memoryBuffer = [] \<rparr>)"

subsection \<open>Spilling the memory buffer\<close>

text \<open>
  \<^verbatim>\<open>sort.Sort\<close> of the Go standard library sorts the buffer in place with \<open>lessFunc\<close>; it is a
  comparison sort and not stable.  The library's code is not part of the repository; it is
  represented by insertion sort, which produces a permutation ordered by \<open>lessFunc\<close> as
  any comparison sort does.
\<close>

fun insert_sorted :: "Less \<Rightarrow> bytes \<Rightarrow> bytes list \<Rightarrow> bytes list" where
  "insert_sorted lessF x [] = [x]"
| "insert_sorted lessF x (y # ys) =
     (if lessF x y then x # y # ys else y # insert_sorted lessF x ys)"

definition sort_Sort :: "Less \<Rightarrow> bytes list \<Rightarrow> bytes list" where
  "sort_Sort lessF xs = foldr (insert_sorted lessF) xs []"

text \<open>
  The I/O of one \<^verbatim>\<open>flushToTempFile\<close>: \<^verbatim>\<open>os.OpenFile\<close> may fail, a \<^verbatim>\<open>Write\<close> to the buffered
  writer may fail, the final \<^verbatim>\<open>Flush\<close> may fail, or all succeed.  When a write or the flush
  fails, some prefix of the data (its length is the \<open>nat\<close>) has reached the file.
\<close>

datatype spill_io = SpillOk | CreateFails error | WriteFails nat error | FlushFails nat error

text \<open>
  The file is opened with \<^verbatim>\<open>O_CREATE|O_WRONLY\<close> and without \<^verbatim>\<open>O_TRUNC\<close>: writing replaces the
  content from offset 0 and keeps what an older, longer file had beyond the new data.
\<close>

definition write_file :: "(nat \<rightharpoonup> bytes) \<Rightarrow> nat \<Rightarrow> bytes \<Rightarrow> (nat \<rightharpoonup> bytes)" where
  "write_file dir name new =
     dir(name \<mapsto> (case dir name of None \<Rightarrow> new | Some old \<Rightarrow> new @ drop (length new) old))"

definition flushToTempFile :: "spill_io \<Rightarrow> sortEngine \<Rightarrow> error option \<times> sortEngine" where
  "flushToTempFile io se =
     (let se1 = se\<lparr>memoryBuffer := sort_Sort (lessFunc se) (memoryBuffer se)\<rparr>;
          name = tmpFilesNumber se1;
          content = concat (memoryBuffer se1)
      in case io of
           CreateFails e \<Rightarrow>
             (Some (Errorf ''cannot create temp file to flush memory buffer: %s\<newline>'' e), se1)
         | WriteFails n e \<Rightarrow>
             (Some (Errorf ''cannot write to temp file: %s\<newline>'' e),
              se1\<lparr>tmpDir := write_file (tmpDir se1) name (take n content)\<rparr>)
         | FlushFails n e \<Rightarrow>
             (Some (Errorf ''cannot flush to temp file: %s\<newline>'' e),
              se1\<lparr>tmpDir := write_file (tmpDir se1) name (take n content)\<rparr>)
         | SpillOk \<Rightarrow>
             (None,
              se1\<lparr>tmpDir := write_file (tmpDir se1) name content,
                  tmpFilesNumber := tmpFilesNumber se1 + 1,
                  memUsed := 0,
                  memoryBuffer := []\<rparr>))"

definition memoryBufferFlushErr :: string where
  "memoryBufferFlushErr = ''cannot flush memory buffer to temp file: %s''"

text \<open>
  \<^verbatim>\<open>Write\<close>: the first argument is the outcome of the I/O of the spill, consulted only when the
  spill happens.  The result is the pair \<^verbatim>\<open>(int, error)\<close> and the engine afterwards.
\<close>

definition Write :: "spill_io \<Rightarrow> bytes \<Rightarrow> sortEngine \<Rightarrow> (nat \<times> error option) \<times> sortEngine" where
  "Write io b se =
     (let se1 = se\<lparr>memoryBuffer := memoryBuffer se @ [b],
                   memUsed := memUsed se + int (length b)\<rparr>
      in if memUsed se1 \<ge> memLimit se1 then
           (case flushToTempFile io se1 of
              (Some flushErr, se2) \<Rightarrow> ((0, Some (Errorf memoryBufferFlushErr flushErr)), se2)
            | (None, se2) \<Rightarrow> ((length b, None), se2))
         else ((length b, None), se1))"

subsection \<open>Package fileheap\<close>

text \<open>
  \<^verbatim>\<open>Entry\<close> and \<^verbatim>\<open>FileHeap\<close>.  The heap's \<open>entries\<close> slice is a list; its \<open>lessFunc\<close> field is the
  engine's and is passed as an argument.
\<close>

datatype Entry = Entry (FileIdx: nat) (Data: bytes)

type_synonym FileHeap = "Entry list"

definition NewHeap :: FileHeap where
  "NewHeap = []"

definition NewEntry :: "nat \<Rightarrow> bytes \<Rightarrow> Entry" where
  "NewEntry fileIdx dat = Entry fileIdx dat"

definition Len :: "FileHeap \<Rightarrow> nat" where
  "Len fh = length fh"

definition Swap :: "FileHeap \<Rightarrow> nat \<Rightarrow> nat \<Rightarrow> FileHeap" where
  "Swap fh i j = fh[i := fh ! j, j := fh ! i]"

definition Less :: "Less \<Rightarrow> FileHeap \<Rightarrow> nat \<Rightarrow> nat \<Rightarrow> bool" where
  "Less lessF fh i j = lessF (Data (fh ! i)) (Data (fh ! j))"

definition Push :: "FileHeap \<Rightarrow> Entry \<Rightarrow> FileHeap" where
  "Push fh x = fh @ [x]"

definition Pop :: "FileHeap \<Rightarrow> Entry \<times> FileHeap" where
  "Pop fh = (fh ! (length fh - 1), take (length fh - 1) fh)"

text \<open>
  \<^verbatim>\<open>container/heap\<close> of the Go standard library drives the five methods above: \<^verbatim>\<open>heap.Push\<close>
  appends and sifts the new entry up, \<^verbatim>\<open>heap.Pop\<close> swaps the root with the last entry, sifts
  the new root down in the first \<open>n\<close> entries and removes the last.  The two loops \<^verbatim>\<open>up\<close> and
  \<^verbatim>\<open>down\<close> are the library's; in \<^verbatim>\<open>up\<close> the parent of index 0 is \<open>(0 - 1) / 2 = 0\<close> in Go as it
  is here.  The engine calls \<^verbatim>\<open>heap.Pop\<close> on a heap with at least one entry only.
\<close>

function up :: "Less \<Rightarrow> FileHeap \<Rightarrow> nat \<Rightarrow> FileHeap" where
  "up lessF fh j =
     (if (j - 1) div 2 = j \<or> \<not> Less lessF fh j ((j - 1) div 2) then fh
      else up lessF (Swap fh ((j - 1) div 2) j) ((j - 1) div 2))"
  by pat_completeness auto
termination
  by (relation "measure (\<lambda>(lessF, fh, j). j)") auto

function down :: "Less \<Rightarrow> FileHeap \<Rightarrow> nat \<Rightarrow> nat \<Rightarrow> FileHeap" where
  "down lessF fh i n =
     (if 2 * i + 1 \<ge> n then fh
      else if \<not> Less lessF fh
                (if 2 * i + 2 < n \<and> Less lessF fh (2 * i + 2) (2 * i + 1) then 2 * i + 2
                 else 2 * i + 1) i
      then fh
      else down lessF
             (Swap fh i (if 2 * i + 2 < n \<and> Less lessF fh (2 * i + 2) (2 * i + 1) then 2 * i + 2
                         else 2 * i + 1))
             (if 2 * i + 2 < n \<and> Less lessF fh (2 * i + 2) (2 * i + 1) then 2 * i + 2
              else 2 * i + 1) n)"
  by pat_completeness auto
termination
  by (relation "measure (\<lambda>(lessF, fh, i, n). n - i)") auto

definition heap_Push :: "Less \<Rightarrow> FileHeap \<Rightarrow> Entry \<Rightarrow> FileHeap" where
  "heap_Push lessF fh x = up lessF (Push fh x) (Len (Push fh x) - 1)"

definition heap_Pop :: "Less \<Rightarrow> FileHeap \<Rightarrow> Entry \<times> FileHeap" where
  "heap_Pop lessF fh = Pop (down lessF (Swap fh 0 (Len fh - 1)) 0 (Len fh - 1))"

subsection \<open>The merge: \<^verbatim>\<open>sortEngine.sort\<close>\<close>

text \<open>
  \<^verbatim>\<open>files\<close> is a Go map from file number to reader.  The code reads it with \<^verbatim>\<open>files[i]\<close>, removes
  keys with \<^verbatim>\<open>delete\<close> and takes \<^verbatim>\<open>len(files)\<close>; an association list with distinct keys gives
  the three operations.  Reading a chunk advances the reader, which the map shares: \<open>advance\<close>
  stores the unread rest for a key that is present.
\<close>

type_synonym files = "(nat \<times> bytes) list"

definition advance :: "nat \<Rightarrow> bytes \<Rightarrow> files \<Rightarrow> files" where
  "advance i rest fs = map (\<lambda>(k, r). if k = i then (k, rest) else (k, r)) fs"

definition delete :: "nat \<Rightarrow> files \<Rightarrow> files" where
  "delete i fs = filter (\<lambda>(k, r). k \<noteq> i) fs"

text \<open>
  The inner \<^verbatim>\<open>for { ... }\<close> of \<^verbatim>\<open>fillHeap\<close> for file \<open>i\<close>: \<open>file\<close> is the reader \<^verbatim>\<open>files[i]\<close> taken
  before the loop.  A result \<open>(Some e, _, _)\<close> is the \<^verbatim>\<open>return fmt.Errorf(...)\<close>, a result
  \<open>(None, _, _)\<close> is a \<^verbatim>\<open>break\<close>.  The loop ends only if the strategy lets it: a model that
  does not return is \<open>None\<close>.
\<close>

partial_function (option) fillHeap_file ::
  "Chunk \<Rightarrow> Less \<Rightarrow> int \<Rightarrow> nat \<Rightarrow> reader \<Rightarrow> int \<Rightarrow> files \<Rightarrow> FileHeap
     \<Rightarrow> (error option \<times> files \<times> FileHeap) outcome option" where
  "fillHeap_file chunkF lessF memLimitPerFile i file readBytes fs fileHeap =
     (case chunkF file of
        ChunkPanic p \<Rightarrow> Some (Panic p)
      | Chunked b chunkFileErr rest \<Rightarrow>
          if chunkFileErr = Some EOF then Some (Return (None, delete i (advance i rest fs), fileHeap))
          else if chunkFileErr \<noteq> None then
            Some (Return (map_option (Errorf ''cannot chunk file: %s\<newline>'') chunkFileErr,
                          advance i rest fs, fileHeap))
          else if readBytes + int (length b) \<ge> memLimitPerFile then
            Some (Return (None, advance i rest fs, heap_Push lessF fileHeap (NewEntry i b)))
          else fillHeap_file chunkF lessF memLimitPerFile i
                 (if file = None then None else Some rest) (readBytes + int (length b))
                 (advance i rest fs) (heap_Push lessF fileHeap (NewEntry i b)))"

text \<open>
  The outer loop \<^verbatim>\<open>for i := 0; i < len(files); i++\<close>: the bound is read again at every
  iteration, after the deletions of the iterations before.
\<close>

partial_function (option) fillHeap_from ::
  "Chunk \<Rightarrow> Less \<Rightarrow> int \<Rightarrow> nat \<Rightarrow> files \<Rightarrow> FileHeap
     \<Rightarrow> (error option \<times> files \<times> FileHeap) outcome option" where
  "fillHeap_from chunkF lessF memLimitPerFile i fs fileHeap =
     (if i < length fs then
        (case fillHeap_file chunkF lessF memLimitPerFile i (map_of fs i) 0 fs fileHeap of
           None \<Rightarrow> None
         | Some (Panic p) \<Rightarrow> Some (Panic p)
         | Some (Return (Some e, fs', fileHeap')) \<Rightarrow> Some (Return (Some e, fs', fileHeap'))
         | Some (Return (None, fs', fileHeap')) \<Rightarrow>
             fillHeap_from chunkF lessF memLimitPerFile (i + 1) fs' fileHeap')
      else Some (Return (None, fs, fileHeap)))"

definition fillHeap ::
  "Chunk \<Rightarrow> Less \<Rightarrow> int \<Rightarrow> files \<Rightarrow> FileHeap
     \<Rightarrow> (error option \<times> files \<times> FileHeap) outcome option" where
  "fillHeap chunkF lessF memLimitPerFile fs fileHeap =
     fillHeap_from chunkF lessF memLimitPerFile 0 fs fileHeap"

text \<open>
  What the environment does during one \<^verbatim>\<open>Close\<close>: the I/O of the remainder flush, the opening
  of each temp file, the \<^verbatim>\<open>io.Copy\<close> of the single-run path (on failure, the bytes that reached
  the sink before it), each \<^verbatim>\<open>Write\<close> on the sink during the merge (indexed by the number of
  writes the sink has received), whether the sink is an \<^verbatim>\<open>io.Closer\<close> and what its \<^verbatim>\<open>Close\<close>
  returns, and the two calls of \<^verbatim>\<open>os.RemoveAll\<close>: the one deferred by \<^verbatim>\<open>sort\<close> and the one
  deferred by \<^verbatim>\<open>Close\<close>.
\<close>

record close_io =
  flush_io :: spill_io
  open_err :: "nat \<Rightarrow> error option"
  copy_err :: "(nat \<times> error) option"
  write_err :: "nat \<Rightarrow> error option"
  out_closer :: "error option option"
  sort_remove_err :: "error option"
  close_remove_err :: "error option"

text \<open>
  The main \<^verbatim>\<open>for { ... }\<close> of \<^verbatim>\<open>sort\<close>.  The result is what \<^verbatim>\<open>sort\<close> returns (or its panic) and
  what the sink has received.
\<close>

partial_function (option) sort_loop ::
  "(nat \<Rightarrow> error option) \<Rightarrow> Chunk \<Rightarrow> Less \<Rightarrow> int \<Rightarrow> files \<Rightarrow> FileHeap \<Rightarrow> bytes list
     \<Rightarrow> (error option outcome \<times> bytes list) option" where
  "sort_loop writeErr chunkF lessF memLimitPerFile fs fileHeap outp =
     (case (if Len fileHeap = 0 then fillHeap chunkF lessF memLimitPerFile fs fileHeap
            else Some (Return (None, fs, fileHeap))) of
        None \<Rightarrow> None
      | Some (Panic p) \<Rightarrow> Some (Panic p, outp)
      | Some (Return (Some fillHeapErr, fs1, fileHeap1)) \<Rightarrow>
          Some (Return (Some (Errorf ''cannot fill heap: %s\<newline>'' fillHeapErr)), outp)
      | Some (Return (None, fs1, fileHeap1)) \<Rightarrow>
          if Len fileHeap1 = 0 then Some (Return None, outp)
          else
            (case heap_Pop lessF fileHeap1 of
               (heapEntry, fileHeap2) \<Rightarrow>
                 (case writeErr (length outp) of
                    Some e \<Rightarrow>
                      Some (Return (Some (Errorf
                              ''cannot write heap entry data to result output: %s\<newline>'' e)), outp)
                  | None \<Rightarrow>
                      (case map_of fs1 (FileIdx heapEntry) of
                         None \<Rightarrow>
                           sort_loop writeErr chunkF lessF memLimitPerFile fs1 fileHeap2
                             (outp @ [Data heapEntry])
                       | Some rd \<Rightarrow>
                           (case chunkF (Some rd) of
                              ChunkPanic p \<Rightarrow> Some (Panic p, outp @ [Data heapEntry])
                            | Chunked b err rest \<Rightarrow>
                                if err = Some EOF then
                                  sort_loop writeErr chunkF lessF memLimitPerFile
                                    (delete (FileIdx heapEntry) (advance (FileIdx heapEntry) rest fs1))
                                    fileHeap2 (outp @ [Data heapEntry])
                                else if err \<noteq> None then
                                  Some (Return (map_option
                                          (Errorf ''error replacing entry on heap: %s\<newline>'') err),
                                        outp @ [Data heapEntry])
                                else
                                  sort_loop writeErr chunkF lessF memLimitPerFile
                                    (advance (FileIdx heapEntry) rest fs1)
                                    (heap_Push lessF fileHeap2 (NewEntry (FileIdx heapEntry) b))
                                    (outp @ [Data heapEntry]))))))"

text \<open>
  \<^verbatim>\<open>removeTempFiles\<close>: \<^verbatim>\<open>os.RemoveAll\<close> empties the working directory, and the function panics
  when that fails.  The result is the panic value, if any.  (The two \<^verbatim>\<open>fmt.Printf\<close> lines
  write to the standard output, which is not modelled.)
\<close>

definition removeTempFiles :: "error option \<Rightarrow> sortEngine \<Rightarrow> error option \<times> sortEngine" where
  "removeTempFiles removeAllErr se =
     (case removeAllErr of
        Some err \<Rightarrow> (Some (Errorf ''cannot remove temp files in %s: %s\<newline>'' err), se)
      | None \<Rightarrow> (None, se\<lparr>tmpDir := Map.empty\<rparr>))"

text \<open>
  A deferred \<^verbatim>\<open>removeTempFiles\<close> runs when the function body is left, by \<^verbatim>\<open>return\<close> or by a
  panic; if it panics itself, that panic is what the caller sees.
\<close>

definition deferred_removeTempFiles ::
  "error option \<Rightarrow> 'a outcome \<times> sortEngine \<Rightarrow> 'a outcome \<times> sortEngine" where
  "deferred_removeTempFiles removeAllErr r =
     (case removeTempFiles removeAllErr (snd r) of
        (Some p, se') \<Rightarrow> (Panic p, se')
      | (None, se') \<Rightarrow> (fst r, se'))"

definition sortEngine_sort :: "close_io \<Rightarrow> sortEngine \<Rightarrow> files \<Rightarrow> (error option outcome \<times> sortEngine) option" where
  "sortEngine_sort env se fs =
     (case sort_loop (write_err env) (chunkFunc se) (lessFunc se)
             (memLimit se sdiv (int (tmpFilesNumber se) + 1)) fs NewHeap (out se) of
        None \<Rightarrow> None
      | Some (r, outp) \<Rightarrow> Some (deferred_removeTempFiles (sort_remove_err env) (r, se\<lparr>out := outp\<rparr>)))"

subsection \<open>\<^verbatim>\<open>Close\<close>\<close>

text \<open>
  The loop that opens the temp files \<open>0, \<dots>, tmpFilesNumber - 1\<close> for reading; opening a file
  that is not in the directory fails.
\<close>

fun open_files :: "(nat \<Rightarrow> error option) \<Rightarrow> (nat \<rightharpoonup> bytes) \<Rightarrow> nat list \<Rightarrow> error + files" where
  "open_files openErr dir [] = Inr []"
| "open_files openErr dir (i # is) =
     (case openErr i of
        Some e \<Rightarrow> Inl e
      | None \<Rightarrow>
          (case dir i of
             None \<Rightarrow> Inl (IOError ''no such file or directory'')
           | Some content \<Rightarrow>
               (case open_files openErr dir is of
                  Inl e \<Rightarrow> Inl e
                | Inr fs \<Rightarrow> Inr ((i, content) # fs))))"

text \<open>
  \<^verbatim>\<open>io.Copy(se.out, files[0])\<close> hands the whole content of run 0 to the sink.  How \<^verbatim>\<open>io.Copy\<close>
  cuts the content into \<^verbatim>\<open>Write\<close> calls is the library's business: the model makes it one
  write, and none for an empty file.
\<close>

definition io_Copy :: "(nat \<times> error) option \<Rightarrow> bytes list \<Rightarrow> bytes \<Rightarrow> error option \<times> bytes list" where
  "io_Copy copyErr outp content =
     (case copyErr of
        Some (n, e) \<Rightarrow> (Some e, if take n content = [] then outp else outp @ [take n content])
      | None \<Rightarrow> (None, if content = [] then outp else outp @ [content]))"

text \<open>
  \<^verbatim>\<open>Close\<close> in three parts: the remainder flush \<^verbatim>\<open>if se.memUsed > 0 { ... }\<close>, the body from
  there to the closing of the sink, and \<^verbatim>\<open>Close\<close> itself, which runs the deferred
  \<^verbatim>\<open>removeTempFiles\<close> however the body ends.  (The deferred \<^verbatim>\<open>file.Close()\<close> calls have no
  effect the engine can see.)
\<close>

definition Close_flush :: "close_io \<Rightarrow> sortEngine \<Rightarrow> error option \<times> sortEngine" where
  "Close_flush env se = (if memUsed se > 0 then flushToTempFile (flush_io env) se else (None, se))"

definition Close_body :: "close_io \<Rightarrow> sortEngine \<Rightarrow> (error option outcome \<times> sortEngine) option" where
  "Close_body env se =
     (case Close_flush env se of
        (Some err, se1) \<Rightarrow> Some (Return (Some (Errorf memoryBufferFlushErr err)), se1)
      | (None, se1) \<Rightarrow>
          (case open_files (open_err env) (tmpDir se1) [0..<tmpFilesNumber se1] of
             Inl openTmpFileErr \<Rightarrow>
               Some (Return (Some (Errorf ''cannot open temp file: %s\<newline>'' openTmpFileErr)),
                     se1\<lparr>memoryBuffer := []\<rparr>)
           | Inr fs \<Rightarrow>
               (case (if tmpFilesNumber se1 = 1 then
                        (case io_Copy (copy_err env) (out se1) (the (map_of fs 0)) of
                           (Some copyErr, outp) \<Rightarrow>
                             Some (Return (Some (Errorf
                                     ''cannot write temp file content to output: %s\<newline>'' copyErr)),
                                   se1\<lparr>memoryBuffer := [], out := outp\<rparr>)
                         | (None, outp) \<Rightarrow> Some (Return None, se1\<lparr>memoryBuffer := [], out := outp\<rparr>))
                      else
                        (case sortEngine_sort env (se1\<lparr>memoryBuffer := []\<rparr>) fs of
                           None \<Rightarrow> None
                         | Some (Return (Some sortErr), se2) \<Rightarrow>
                             Some (Return (Some (Errorf ''cannot sort temp files: %s\<newline>'' sortErr)), se2)
                         | Some r \<Rightarrow> Some r)) of
                  None \<Rightarrow> None
                | Some (Return None, se2) \<Rightarrow>
                    (case out_closer env of
                       Some closeErr \<Rightarrow> Some (Return closeErr, se2)
                     | None \<Rightarrow> Some (Return None, se2))
                | Some r \<Rightarrow> Some r)))"

definition Close :: "close_io \<Rightarrow> sortEngine \<Rightarrow> (error option outcome \<times> sortEngine) option" where
  "Close env se = map_option (deferred_removeTempFiles (close_remove_err env)) (Close_body env se)"

subsection \<open>The strategies of the demonstration driver\<close>

text \<open>
  \<^verbatim>\<open>main.go\<close> configures the engine with a chunker that reads up to and including the next
  newline (\<^verbatim>\<open>bufio.Reader.ReadBytes\<close>: at the end of the data it returns what is left together
  with \<^verbatim>\<open>io.EOF\<close>; on a \<^verbatim>\<open>nil\<close> reader it panics) and with the comparison
  \<^verbatim>\<open>bytes.Compare(b1, b2) < 0\<close>, the lexicographic order of the bytes.
\<close>

definition driver_chunkFunc :: Chunk where
  "driver_chunkFunc r =
     (case r of
        None \<Rightarrow> ChunkPanic (IOError ''invalid memory address or nil pointer dereference'')
      | Some bs \<Rightarrow>
          (case dropWhile (\<lambda>c. c \<noteq> CHR 0x0A) bs of
             [] \<Rightarrow> Chunked bs (Some EOF) []
           | d # rest \<Rightarrow> Chunked (takeWhile (\<lambda>c. c \<noteq> CHR 0x0A) bs @ [d]) None rest))"

fun bytes_Compare :: "bytes \<Rightarrow> bytes \<Rightarrow> int" where
  "bytes_Compare [] [] = 0"
| "bytes_Compare [] (y # ys) = - 1"
| "bytes_Compare (x # xs) [] = 1"
| "bytes_Compare (x # xs) (y # ys) =
     (if (of_char x :: nat) < of_char y then - 1
      else if (of_char y :: nat) < of_char x then 1
      else bytes_Compare xs ys)"

definition driver_lessFunc :: Less where
  "driver_lessFunc b1 b2 = (bytes_Compare b1 b2 < 0)"

subsection \<open>Notions used to state the properties\<close>

text \<open>An engine as \<^verbatim>\<open>New\<close> returns it for the driver's strategies and an empty sink.\<close>

definition driver_engine :: "int \<Rightarrow> sortEngine" where
  "driver_engine lim =
     \<lparr> memLimit = lim, memUsed = 0, tmpDir = Map.empty, chunkFunc = driver_chunkFunc,
       lessFunc = driver_lessFunc, out = [], tmpFilesNumber = 0, memoryBuffer = [] \<rparr>"

text \<open>An environment in which no I/O call fails and the sink is not an \<^verbatim>\<open>io.Closer\<close>.\<close>

definition ok_env :: close_io where
  "ok_env = \<lparr> flush_io = SpillOk, open_err = (\<lambda>i. None), copy_err = None,
              write_err = (\<lambda>k. None), out_closer = None, sort_remove_err = None,
              close_remove_err = None \<rparr>"

text \<open>A sequence of \<^verbatim>\<open>Write\<close> calls, one per record, each spill with the I/O outcome \<open>io\<close>.\<close>

definition Writes :: "spill_io \<Rightarrow> bytes list \<Rightarrow> sortEngine \<Rightarrow> sortEngine" where
  "Writes io bs se = fold (\<lambda>b s. snd (Write io b s)) bs se"

text \<open>The invariant of the memory buffer: the counter is the sum of the lengths buffered.\<close>

definition buffer_inv :: "sortEngine \<Rightarrow> bool" where
  "buffer_inv se = (memUsed se = int (sum_list (map length (memoryBuffer se))))"

text \<open>Division rounding up.\<close>

definition ceil_div :: "nat \<Rightarrow> nat \<Rightarrow> nat" where
  "ceil_div a b = (a + b - 1) div b"

text \<open>Every run counted by the engine is a file of the working directory that is not empty.\<close>

definition runs_nonempty :: "sortEngine \<Rightarrow> bool" where
  "runs_nonempty se = (\<forall>i<tmpFilesNumber se. \<exists>c. tmpDir se i = Some c \<and> c \<noteq> [])"

subsection \<open>Notions used to state and prove the properties of the merge\<close>

text \<open>
  The contract of the comparison: a strict weak ordering, that is, irreflexive and transitive
  with a transitive "not less".
\<close>

definition strict_weak_order :: "Less \<Rightarrow> bool" where
  "strict_weak_order lessF =
     ((\<forall>a. \<not> lessF a a) \<and>
      (\<forall>a b c. lessF a b \<and> lessF b c \<longrightarrow> lessF a c) \<and>
      (\<forall>a b c. \<not> lessF a b \<and> \<not> lessF b c \<longrightarrow> \<not> lessF a c))"

text \<open>
  The heap property of \<^verbatim>\<open>container/heap\<close> on the first \<open>n\<close> entries: no entry is less than its
  parent at index \<open>(k - 1) / 2\<close>; and the property with one entry out of place, on its way up
  (the pairs above \<open>j\<close> are not yet known to be in order) or on its way down (the pairs below
  \<open>i\<close> are not yet known to be in order).
\<close>

definition heap_upto :: "Less \<Rightarrow> FileHeap \<Rightarrow> nat \<Rightarrow> bool" where
  "heap_upto lessF fh n =
     (\<forall>k. 0 < k \<and> k < n \<longrightarrow> \<not> Less lessF fh k ((k - 1) div 2))"

definition heap_except_up :: "Less \<Rightarrow> FileHeap \<Rightarrow> nat \<Rightarrow> bool" where
  "heap_except_up lessF fh j =
     ((\<forall>k. 0 < k \<and> k < length fh \<and> k \<noteq> j \<longrightarrow> \<not> Less lessF fh k ((k - 1) div 2)) \<and>
      (\<forall>k. 0 < j \<and> k < length fh \<and> k \<noteq> j \<and> (k - 1) div 2 = j \<longrightarrow>
           \<not> Less lessF fh k ((j - 1) div 2)))"

definition heap_except_down :: "Less \<Rightarrow> FileHeap \<Rightarrow> nat \<Rightarrow> nat \<Rightarrow> bool" where
  "heap_except_down lessF fh i n =
     ((\<forall>k. 0 < k \<and> k < n \<and> (k - 1) div 2 \<noteq> i \<longrightarrow> \<not> Less lessF fh k ((k - 1) div 2)) \<and>
      (\<forall>k. 0 < i \<and> 0 < k \<and> k < n \<and> (k - 1) div 2 = i \<longrightarrow>
           \<not> Less lessF fh k ((i - 1) div 2)))"

text \<open>
  The contract between the records written and the chunking strategy: the strategy
  delimits a record when, on any stream that starts with the record, it returns the record
  and leaves the rest; and at the end of a stream it reports \<^verbatim>\<open>io.EOF\<close>.
\<close>

definition delimits :: "Chunk \<Rightarrow> bytes \<Rightarrow> bool" where
  "delimits chunkF r = (\<forall>rest. chunkF (Some (r @ rest)) = Chunked r None rest)"

definition eof_at_end :: "Chunk \<Rightarrow> bool" where
  "eof_at_end chunkF = (\<exists>b rest. chunkF (Some []) = Chunked b (Some EOF) rest)"

text \<open>
  The records a reader of a byte stream obtains with the strategy: it chunks until the
  strategy reports an error or the end, or stops advancing.
\<close>

function records_of :: "Chunk \<Rightarrow> bytes \<Rightarrow> bytes list" where
  "records_of chunkF bs =
     (case chunkF (Some bs) of
        ChunkPanic p \<Rightarrow> []
      | Chunked b err rest \<Rightarrow>
          if err = None \<and> length rest < length bs then b # records_of chunkF rest else [])"
  by pat_completeness auto
termination
  by (relation "measure (\<lambda>(chunkF, bs). length bs)") auto

declare records_of.simps [simp del]

text \<open>An environment in which no I/O call of \<^verbatim>\<open>Close\<close> fails.\<close>

definition io_succeeds :: "close_io \<Rightarrow> bool" where
  "io_succeeds env =
     (flush_io env = SpillOk \<and> (\<forall>i. open_err env i = None) \<and> copy_err env = None \<and>
      (\<forall>k. write_err env k = None) \<and> sort_remove_err env = None \<and> close_remove_err env = None)"

text \<open>
  The open files seen as lists of records still to be read: \<open>flat\<close> gives the readers'
  contents, \<open>pending\<close> the records that no reader has returned yet, and \<open>run_files\<close> the
  files of a list of runs, numbered from 0.
\<close>

type_synonym runs = "(nat \<times> bytes list) list"

definition flat :: "runs \<Rightarrow> files" where
  "flat frs = map (\<lambda>(k, xs). (k, concat xs)) frs"

definition set_run :: "nat \<Rightarrow> bytes list \<Rightarrow> runs \<Rightarrow> runs" where
  "set_run i ys frs = map (\<lambda>(k, xs). if k = i then (k, ys) else (k, xs)) frs"

definition del_run :: "nat \<Rightarrow> runs \<Rightarrow> runs" where
  "del_run i frs = filter (\<lambda>(k, xs). k \<noteq> i) frs"

definition pending :: "runs \<Rightarrow> bytes multiset" where
  "pending frs = mset (concat (map snd frs))"

definition run_files :: "bytes list list \<Rightarrow> runs" where
  "run_files runs = map (\<lambda>i. (i, runs ! i)) [0..<length runs]"

text \<open>A sequence of \<^verbatim>\<open>heap.Push\<close> calls.\<close>

definition push_all :: "Less \<Rightarrow> nat \<Rightarrow> bytes list \<Rightarrow> FileHeap \<Rightarrow> FileHeap" where
  "push_all l i xs h = fold (\<lambda>x h. heap_Push l h (NewEntry i x)) xs h"

definition push_entries :: "Less \<Rightarrow> Entry list \<Rightarrow> FileHeap \<Rightarrow> FileHeap" where
  "push_entries l zs h = fold (\<lambda>e h. heap_Push l h e) zs h"

text \<open>
  An open file is staged when the heap holds an entry of it that is related by \<open>R\<close> to every
  record the file still has.  The drain phase keeps every open file staged, so an empty heap
  means that no file is open.
\<close>

definition staged :: "(bytes \<Rightarrow> bytes \<Rightarrow> bool) \<Rightarrow> FileHeap \<Rightarrow> nat \<times> bytes list \<Rightarrow> bool" where
  "staged R h kx = (\<exists>e\<in>set h. FileIdx e = fst kx \<and> (\<forall>x\<in>set (snd kx). R (Data e) x))"

definition drain_inv :: "Chunk \<Rightarrow> (bytes \<Rightarrow> bytes \<Rightarrow> bool) \<Rightarrow> runs \<Rightarrow> FileHeap \<Rightarrow> bool" where
  "drain_inv c R frs h =
     (distinct (map fst frs) \<and>
      (\<forall>kx\<in>set frs. (\<forall>x\<in>set (snd kx). delimits c x) \<and> sorted_wrt R (snd kx) \<and> staged R h kx))"

text \<open>
  The runs on disk: file \<open>i\<close> of the working directory is the concatenation of the records
  of run \<open>i\<close>, and no other file exists; and the state of an engine after the records \<open>rs\<close>
  have been written: every run is a sorted buffer that had reached the memory limit.
\<close>

definition spilled :: "sortEngine \<Rightarrow> bytes list list \<Rightarrow> bool" where
  "spilled se runs =
     (tmpFilesNumber se = length runs \<and>
      (\<forall>i<length runs. tmpDir se i = Some (concat (runs ! i))) \<and>
      (\<forall>i\<ge>length runs. tmpDir se i = None))"

definition spill_runs :: "sortEngine \<Rightarrow> bytes list list \<Rightarrow> bytes list \<Rightarrow> bool" where
  "spill_runs se runs rs =
     (spilled se runs \<and> buffer_inv se \<and>
      mset (concat runs) + mset (memoryBuffer se) = mset rs \<and>
      (\<forall>run\<in>set runs. run \<noteq> [] \<and> memLimit se \<le> int (length (concat run)) \<and>
                        (\<exists>buf. run = sort_Sort (lessFunc se) buf)))"

section \<open>Properties\<close>

subsection \<open>The in-memory sort and the spill\<close>

lemma mset_insert_sorted: "mset (insert_sorted l x xs) = add_mset x (mset xs)"
  by (induction xs) auto

lemma mset_sort_Sort: "mset (sort_Sort l xs) = mset xs"
  by (induction xs) (auto simp: sort_Sort_def mset_insert_sorted)

lemma sum_length_sort_Sort:
  "sum_list (map length (sort_Sort l xs)) = sum_list (map length xs)"
proof -
  have "mset (map length (sort_Sort l xs)) = mset (map length xs)"
    by (simp add: mset_sort_Sort)
  then show ?thesis
    by (metis sum_mset_sum_list)
qed

lemma length_concat_sort_Sort: "length (concat (sort_Sort l xs)) = length (concat xs)"
  by (simp add: length_concat sum_length_sort_Sort)

lemma flushToTempFile_fields:
  "lessFunc (snd (flushToTempFile io se)) = lessFunc se"
  "chunkFunc (snd (flushToTempFile io se)) = chunkFunc se"
  "memLimit (snd (flushToTempFile io se)) = memLimit se"
  "out (snd (flushToTempFile io se)) = out se"
  by (auto simp: flushToTempFile_def Let_def split: spill_io.splits)

lemma flushToTempFile_ok:
  "flushToTempFile SpillOk se =
     (None, se\<lparr>tmpDir := write_file (tmpDir se) (tmpFilesNumber se)
                             (concat (sort_Sort (lessFunc se) (memoryBuffer se))),
               tmpFilesNumber := tmpFilesNumber se + 1, memUsed := 0, memoryBuffer := []\<rparr>)"
  by (simp add: flushToTempFile_def Let_def)

lemma flushToTempFile_fails:
  "io \<noteq> SpillOk \<Longrightarrow>
     \<exists>e. fst (flushToTempFile io se) = Some e \<and>
         tmpFilesNumber (snd (flushToTempFile io se)) = tmpFilesNumber se \<and>
         memUsed (snd (flushToTempFile io se)) = memUsed se \<and>
         memoryBuffer (snd (flushToTempFile io se)) = sort_Sort (lessFunc se) (memoryBuffer se)"
  by (cases io) (auto simp: flushToTempFile_def Let_def)

lemma flushToTempFile_None_iff: "fst (flushToTempFile io se) = None \<longleftrightarrow> io = SpillOk"
  by (cases io) (auto simp: flushToTempFile_def Let_def)

lemma buffer_inv_flushToTempFile: "buffer_inv se \<Longrightarrow> buffer_inv (snd (flushToTempFile io se))"
  by (cases io) (auto simp: flushToTempFile_def Let_def buffer_inv_def sum_length_sort_Sort)

lemma buffer_inv_Write: "buffer_inv se \<Longrightarrow> buffer_inv (snd (Write io b se))"
proof -
  assume inv: "buffer_inv se"
  let ?se1 = "se\<lparr>memoryBuffer := memoryBuffer se @ [b], memUsed := memUsed se + int (length b)\<rparr>"
  have 1: "buffer_inv ?se1" using inv by (simp add: buffer_inv_def)
  show ?thesis
  proof (cases "memLimit se \<le> memUsed se + int (length b)")
    case False then show ?thesis using 1 by (simp add: Write_def Let_def)
  next
    case True
    have "snd (Write io b se) = snd (flushToTempFile io ?se1)"
      using True by (simp add: Write_def Let_def split: prod.splits option.splits)
    then show ?thesis using buffer_inv_flushToTempFile[OF 1] by simp
  qed
qed

lemma Writes_snoc: "Writes io (bs @ [b]) se = snd (Write io b (Writes io bs se))"
  by (simp add: Writes_def)

lemma Write_fields:
  "memLimit (snd (Write io b se)) = memLimit se"
  "lessFunc (snd (Write io b se)) = lessFunc se"
  "chunkFunc (snd (Write io b se)) = chunkFunc se"
  "out (snd (Write io b se)) = out se"
  by (auto simp: Write_def Let_def flushToTempFile_def split: spill_io.splits)

lemma Writes_fields:
  "memLimit (Writes io bs se) = memLimit se"
  "lessFunc (Writes io bs se) = lessFunc se"
  "chunkFunc (Writes io bs se) = chunkFunc se"
  "out (Writes io bs se) = out se"
  by (induction bs rule: rev_induct) (simp_all add: Writes_snoc Write_fields, simp_all add: Writes_def)

subsection \<open>The exits of \<^verbatim>\<open>Close\<close>\<close>

lemma deferred_removeTempFiles_fields:
  "tmpFilesNumber (snd (deferred_removeTempFiles rm r)) = tmpFilesNumber (snd r)"
  "memUsed (snd (deferred_removeTempFiles rm r)) = memUsed (snd r)"
  "memoryBuffer (snd (deferred_removeTempFiles rm r)) = memoryBuffer (snd r)"
  "out (snd (deferred_removeTempFiles rm r)) = out (snd r)"
  by (auto simp: deferred_removeTempFiles_def removeTempFiles_def split: option.splits)

lemma deferred_removeTempFiles_result:
  "fst (deferred_removeTempFiles rm r) =
     (case rm of None \<Rightarrow> fst r | Some e \<Rightarrow> Panic (Errorf ''cannot remove temp files in %s: %s\<newline>'' e))"
  by (auto simp: deferred_removeTempFiles_def removeTempFiles_def split: option.splits)

lemma sortEngine_sort_fields:
  assumes "sortEngine_sort env se fs = Some (r, se')"
  shows "tmpFilesNumber se' = tmpFilesNumber se" "memUsed se' = memUsed se"
    "memoryBuffer se' = memoryBuffer se"
proof -
  obtain r0 outp where "deferred_removeTempFiles (sort_remove_err env) (r0, se\<lparr>out := outp\<rparr>) = (r, se')"
    using assms by (auto simp: sortEngine_sort_def split: option.splits prod.splits)
  then have "se' = snd (deferred_removeTempFiles (sort_remove_err env) (r0, se\<lparr>out := outp\<rparr>))"
    by simp
  then show "tmpFilesNumber se' = tmpFilesNumber se" "memUsed se' = memUsed se"
    "memoryBuffer se' = memoryBuffer se"
    by (simp_all add: deferred_removeTempFiles_fields)
qed

lemma Close_body_fields:
  assumes "Close_body env se = Some (r, se')"
  shows "tmpFilesNumber se' = tmpFilesNumber (snd (Close_flush env se))"
    and "memUsed se' = memUsed (snd (Close_flush env se))"
    and "memoryBuffer se' = (if fst (Close_flush env se) = None then []
                             else memoryBuffer (snd (Close_flush env se)))"
  using assms
  by (auto simp: Close_body_def split: prod.splits option.splits sum.splits if_splits outcome.splits
           dest: sortEngine_sort_fields)

lemma Close_fields:
  assumes "Close env se = Some (r, se')"
  shows "tmpFilesNumber se' = tmpFilesNumber (snd (Close_flush env se))"
    and "memUsed se' = memUsed (snd (Close_flush env se))"
    and "memoryBuffer se' = (if fst (Close_flush env se) = None then []
                             else memoryBuffer (snd (Close_flush env se)))"
proof -
  obtain r0 se0 where b: "Close_body env se = Some (r0, se0)"
    and e: "(r, se') = deferred_removeTempFiles (close_remove_err env) (r0, se0)"
    using assms by (auto simp: Close_def)
  have s: "se' = snd (deferred_removeTempFiles (close_remove_err env) (r0, se0))"
    using e by (metis snd_conv)
  show "tmpFilesNumber se' = tmpFilesNumber (snd (Close_flush env se))"
    and "memUsed se' = memUsed (snd (Close_flush env se))"
    and "memoryBuffer se' = (if fst (Close_flush env se) = None then []
                             else memoryBuffer (snd (Close_flush env se)))"
    using Close_body_fields[OF b] by (simp_all add: s deferred_removeTempFiles_fields)
qed

lemma buffer_inv_Close_flush: "buffer_inv se \<Longrightarrow> buffer_inv (snd (Close_flush env se))"
  by (simp add: Close_flush_def buffer_inv_flushToTempFile)

lemma Close_flush_None_memUsed:
  "buffer_inv se \<Longrightarrow> fst (Close_flush env se) = None \<Longrightarrow> memUsed (snd (Close_flush env se)) = 0"
  by (cases "flush_io env")
     (auto simp: Close_flush_def flushToTempFile_def Let_def buffer_inv_def split: if_splits)

lemma buffer_inv_Close:
  assumes "buffer_inv se" "Close env se = Some (r, se')"
  shows "buffer_inv se'"
proof (cases "fst (Close_flush env se) = None")
  case True
  have "memUsed se' = 0"
    using Close_fields(2)[OF assms(2)] Close_flush_None_memUsed[OF assms(1) True] by simp
  moreover have "memoryBuffer se' = []"
    using Close_fields(3)[OF assms(2)] True by simp
  ultimately show ?thesis
    by (simp add: buffer_inv_def)
next
  case False
  have "memUsed se' = memUsed (snd (Close_flush env se))"
    using Close_fields(2)[OF assms(2)] .
  moreover have "memoryBuffer se' = memoryBuffer (snd (Close_flush env se))"
    using Close_fields(3)[OF assms(2)] False by simp
  ultimately show ?thesis
    using buffer_inv_Close_flush[OF assms(1), of env] by (simp add: buffer_inv_def)
qed

lemma buffer_inv_New: "New None out0 c l lim = Inr se \<Longrightarrow> buffer_inv se"
  by (auto simp: New_def buffer_inv_def)

lemma sort_loop_no_files:
  "sort_loop w c l lim [] [] outp = Some (Return None, outp)"
  by (simp add: sort_loop.simps fillHeap_def fillHeap_from.simps Len_def)

lemma sortEngine_sort_no_files:
  "sortEngine_sort env se [] =
     Some (deferred_removeTempFiles (sort_remove_err env) (Return None, se))"
  by (simp add: sortEngine_sort_def sort_loop_no_files NewHeap_def)

lemma Close_no_runs:
  assumes "memUsed se \<le> 0" "tmpFilesNumber se = 0"
  shows "Close env se =
     Some (deferred_removeTempFiles (close_remove_err env)
       (case sort_remove_err env of
          Some e \<Rightarrow> (Panic (Errorf ''cannot remove temp files in %s: %s\<newline>'' e),
                     se\<lparr>memoryBuffer := []\<rparr>)
        | None \<Rightarrow> (Return (case out_closer env of Some closeErr \<Rightarrow> closeErr | None \<Rightarrow> None),
                   se\<lparr>memoryBuffer := [], tmpDir := Map.empty\<rparr>)))"
  using assms
  by (simp add: Close_def Close_body_def Close_flush_def sortEngine_sort_no_files
      deferred_removeTempFiles_def removeTempFiles_def split: option.splits)

lemma Writes_empty_records:
  assumes "0 < memLimit se" "memUsed se = 0" "\<forall>r\<in>set rs. r = []"
  shows "Writes io rs se = se\<lparr>memoryBuffer := memoryBuffer se @ rs\<rparr>"
  using assms(3)
proof (induction rs rule: rev_induct)
  case Nil
  then show ?case by (simp add: Writes_def)
next
  case (snoc r rs)
  then have "Writes io rs se = se\<lparr>memoryBuffer := memoryBuffer se @ rs\<rparr>" and "r = []"
    by simp_all
  then show ?case
    using assms(1,2) by (simp add: Writes_snoc Write_def)
qed

subsection \<open>Accepting a record\<close>

text \<open>
  Claim C6.  \<^verbatim>\<open>Write\<close> appends the record to the buffer and adds its length to the counter.
  If the counter then stays below the limit, that is all it does and it returns the length of
  the record.  If the counter reaches the limit, \<^verbatim>\<open>flushToTempFile\<close> runs on the buffer with
  the record in it, and \<^verbatim>\<open>Write\<close> returns the length of the record when the flush succeeds
  and 0 with the wrapped error when it fails.  A run is added (with I/O that succeeds) exactly
  when the counter reaches the limit, and a call that reports no error returns the length of
  the record.
\<close>

theorem Write_accept:
  "(memUsed se + int (length b) < memLimit se \<longrightarrow>
      Write io b se = ((length b, None),
                       se\<lparr>memoryBuffer := memoryBuffer se @ [b],
                          memUsed := memUsed se + int (length b)\<rparr>)) \<and>
   (memLimit se \<le> memUsed se + int (length b) \<longrightarrow>
      Write io b se =
        (case flushToTempFile io (se\<lparr>memoryBuffer := memoryBuffer se @ [b],
                                     memUsed := memUsed se + int (length b)\<rparr>) of
           (Some flushErr, se2) \<Rightarrow> ((0, Some (Errorf memoryBufferFlushErr flushErr)), se2)
         | (None, se2) \<Rightarrow> ((length b, None), se2))) \<and>
   ((tmpFilesNumber (snd (Write SpillOk b se)) = tmpFilesNumber se + 1) =
      (memLimit se \<le> memUsed se + int (length b))) \<and>
   (snd (fst (Write io b se)) = None \<longrightarrow> fst (fst (Write io b se)) = length b)"
  by (auto simp: Write_def Let_def flushToTempFile_ok split: prod.splits option.splits)

theorem Write_accept_witness:
  "memUsed (driver_engine 4) + int (length ''a\<newline>'') < memLimit (driver_engine 4) \<and>
   Write SpillOk ''a\<newline>'' (driver_engine 4) =
     ((2, None), (driver_engine 4)\<lparr>memoryBuffer := [''a\<newline>''], memUsed := 2\<rparr>) \<and>
   memLimit (driver_engine 2) \<le> memUsed (driver_engine 2) + int (length ''a\<newline>'') \<and>
   fst (Write SpillOk ''a\<newline>'' (driver_engine 2)) = (2, None) \<and>
   tmpFilesNumber (snd (Write SpillOk ''a\<newline>'' (driver_engine 2))) = 1 \<and>
   fst (Write (CreateFails EOF) ''a\<newline>'' (driver_engine 2)) \<noteq> (2, None)"
  using Write_accept [of "driver_engine 4" "''a\<newline>''" SpillOk]
    Write_accept [of "driver_engine 2" "''a\<newline>''" SpillOk]
    Write_accept [of "driver_engine 2" "''a\<newline>''" "CreateFails EOF"]
  by (simp add: driver_engine_def flushToTempFile_def sort_Sort_def)

subsection \<open>The invariant of the memory buffer\<close>

text \<open>
  Claim C9.  The counter \<open>memUsed\<close> equals the sum of the lengths of the records in
  \<open>memoryBuffer\<close>: this holds for the engine \<^verbatim>\<open>New\<close> returns and is kept by \<^verbatim>\<open>Write\<close>, by
  \<^verbatim>\<open>flushToTempFile\<close> (failing or not) and by \<^verbatim>\<open>Close\<close>; after a spill that succeeds the
  buffer is empty and the counter is 0.
\<close>

theorem memory_buffer_invariant:
  "(New None out0 c l lim = Inr se0 \<longrightarrow> buffer_inv se0) \<and>
   (buffer_inv se \<longrightarrow>
      buffer_inv (snd (Write io b se)) \<and>
      buffer_inv (snd (flushToTempFile io se)) \<and>
      (fst (flushToTempFile io se) = None \<longrightarrow>
         memoryBuffer (snd (flushToTempFile io se)) = [] \<and> memUsed (snd (flushToTempFile io se)) = 0) \<and>
      (\<forall>r se'. Close env se = Some (r, se') \<longrightarrow> buffer_inv se'))"
  using buffer_inv_New buffer_inv_Write buffer_inv_flushToTempFile buffer_inv_Close
  by (auto simp: flushToTempFile_None_iff flushToTempFile_ok)

theorem memory_buffer_invariant_witness:
  "New None [] driver_chunkFunc driver_lessFunc 4 = Inr (driver_engine 4) \<and>
   buffer_inv (driver_engine 4) \<and>
   buffer_inv (snd (Write SpillOk ''a\<newline>'' (driver_engine 4))) \<and>
   fst (flushToTempFile SpillOk (snd (Write SpillOk ''a\<newline>'' (driver_engine 4)))) = None \<and>
   memUsed (snd (flushToTempFile SpillOk (snd (Write SpillOk ''a\<newline>'' (driver_engine 4))))) = 0 \<and>
   Close ok_env (driver_engine 4) = Some (Return None, driver_engine 4) \<and>
   buffer_inv (driver_engine 4)"
  using memory_buffer_invariant [of "[]" driver_chunkFunc driver_lessFunc 4 "driver_engine 4"
      "driver_engine 4" SpillOk "''a\<newline>''" ok_env]
    memory_buffer_invariant [of "[]" driver_chunkFunc driver_lessFunc 4 "driver_engine 4"
      "snd (Write SpillOk ''a\<newline>'' (driver_engine 4))" SpillOk "''a\<newline>''" ok_env]
  by (simp add: New_def driver_engine_def flushToTempFile_None_iff Close_no_runs ok_env_def
      deferred_removeTempFiles_def removeTempFiles_def)

subsection \<open>A spill that fails\<close>

text \<open>
  Claim C8.  When the I/O of a spill fails (the file cannot be created, a write fails or the
  flush fails), \<^verbatim>\<open>flushToTempFile\<close> returns an error and leaves \<open>tmpFilesNumber\<close> as it was.
  \<^verbatim>\<open>Write\<close>, when it spills, then returns 0 and the error wrapped, with the run count
  unchanged.  \<^verbatim>\<open>Close\<close>, when its remainder flush fails, ends with the run count unchanged
  and returns the error wrapped, unless the deferred removal of the working directory also
  fails.
\<close>

theorem spill_failure_leaves_run_count:
  assumes "io \<noteq> SpillOk"
  shows "((\<exists>e. fst (flushToTempFile io se) = Some e) \<and>
          tmpFilesNumber (snd (flushToTempFile io se)) = tmpFilesNumber se) \<and>
         (memLimit se \<le> memUsed se + int (length b) \<longrightarrow>
            (\<exists>e. fst (Write io b se) = (0, Some (Errorf memoryBufferFlushErr e))) \<and>
            tmpFilesNumber (snd (Write io b se)) = tmpFilesNumber se) \<and>
         (flush_io env = io \<and> 0 < memUsed se \<longrightarrow>
            (\<exists>r se'. Close env se = Some (r, se') \<and> tmpFilesNumber se' = tmpFilesNumber se \<and>
               (close_remove_err env = None \<longrightarrow>
                  (\<exists>e. fst (flushToTempFile io se) = Some e \<and>
                       r = Return (Some (Errorf memoryBufferFlushErr e))))))"
proof (intro conjI impI)
  have 1: "(\<exists>e. fst (flushToTempFile io se) = Some e) \<and>
         tmpFilesNumber (snd (flushToTempFile io se)) = tmpFilesNumber se" for se
    using flushToTempFile_fails[OF assms, of se] by blast
  show "\<exists>e. fst (flushToTempFile io se) = Some e"
    and "tmpFilesNumber (snd (flushToTempFile io se)) = tmpFilesNumber se"
    using 1 by blast+
  {
    assume "memLimit se \<le> memUsed se + int (length b)"
    then show "\<exists>e. fst (Write io b se) = (0, Some (Errorf memoryBufferFlushErr e))"
      and "tmpFilesNumber (snd (Write io b se)) = tmpFilesNumber se"
      using 1[of "se\<lparr>memoryBuffer := memoryBuffer se @ [b], memUsed := memUsed se + int (length b)\<rparr>"]
      by (auto simp: Write_def Let_def split: prod.splits option.splits)
  }
  assume h: "flush_io env = io \<and> 0 < memUsed se"
  obtain e where e: "fst (flushToTempFile io se) = Some e"
    and n: "tmpFilesNumber (snd (flushToTempFile io se)) = tmpFilesNumber se"
    using 1[of se] by blast
  have b: "Close_body env se =
             Some (Return (Some (Errorf memoryBufferFlushErr e)), snd (flushToTempFile io se))"
  proof -
    have "flushToTempFile io se = (Some e, snd (flushToTempFile io se))"
      using e by (metis prod.collapse)
    then have "Close_flush env se = (Some e, snd (flushToTempFile io se))"
      using h by (simp add: Close_flush_def)
    then show ?thesis
      by (simp add: Close_body_def)
  qed
  let ?res = "deferred_removeTempFiles (close_remove_err env)
                (Return (Some (Errorf memoryBufferFlushErr e)), snd (flushToTempFile io se))"
  have c: "Close env se = Some (fst ?res, snd ?res)"
    by (simp add: Close_def b)
  have d: "tmpFilesNumber (snd ?res) = tmpFilesNumber se"
    by (simp add: deferred_removeTempFiles_fields n)
  have f: "close_remove_err env = None \<longrightarrow>
      fst ?res = Return (Some (Errorf memoryBufferFlushErr e))"
    by (simp add: deferred_removeTempFiles_result)
  show "\<exists>r se'. Close env se = Some (r, se') \<and> tmpFilesNumber se' = tmpFilesNumber se \<and>
          (close_remove_err env = None \<longrightarrow>
             (\<exists>e. fst (flushToTempFile io se) = Some e \<and>
                  r = Return (Some (Errorf memoryBufferFlushErr e))))"
    apply (rule exI[of _ "fst ?res"])
    apply (rule exI[of _ "snd ?res"])
    using c d e f by simp
qed

theorem spill_failure_leaves_run_count_witness:
  "CreateFails (IOError ''no space left on device'') \<noteq> SpillOk \<and>
   memLimit (driver_engine 2) \<le> memUsed (driver_engine 2) + int (length ''a\<newline>'') \<and>
   fst (Write (CreateFails (IOError ''no space left on device'')) ''a\<newline>'' (driver_engine 2)) =
     (0, Some (Errorf memoryBufferFlushErr
                (Errorf ''cannot create temp file to flush memory buffer: %s\<newline>''
                   (IOError ''no space left on device'')))) \<and>
   tmpFilesNumber (snd (Write (CreateFails (IOError ''no space left on device'')) ''a\<newline>''
                          (driver_engine 2))) = 0 \<and>
   flush_io (ok_env\<lparr>flush_io := CreateFails (IOError ''no space left on device'')\<rparr>) =
     CreateFails (IOError ''no space left on device'') \<and>
   0 < memUsed (snd (Write SpillOk ''a\<newline>'' (driver_engine 4))) \<and>
   (\<exists>se'. Close (ok_env\<lparr>flush_io := CreateFails (IOError ''no space left on device'')\<rparr>)
             (snd (Write SpillOk ''a\<newline>'' (driver_engine 4))) =
           Some (Return (Some (Errorf memoryBufferFlushErr
                  (Errorf ''cannot create temp file to flush memory buffer: %s\<newline>''
                     (IOError ''no space left on device'')))), se') \<and>
          tmpFilesNumber se' = 0)"
  using spill_failure_leaves_run_count [of "CreateFails (IOError ''no space left on device'')"
      "driver_engine 2" "''a\<newline>''"
      "ok_env\<lparr>flush_io := CreateFails (IOError ''no space left on device'')\<rparr>"]
    spill_failure_leaves_run_count [of "CreateFails (IOError ''no space left on device'')"
      "snd (Write SpillOk ''a\<newline>'' (driver_engine 4))" "''a\<newline>''"
      "ok_env\<lparr>flush_io := CreateFails (IOError ''no space left on device'')\<rparr>"]
  by (simp add: driver_engine_def ok_env_def Write_def flushToTempFile_def sort_Sort_def)

subsection \<open>A working directory that cannot be removed\<close>

text \<open>
  Claim C5, as the code has it.  When \<^verbatim>\<open>os.RemoveAll\<close> fails in the \<^verbatim>\<open>removeTempFiles\<close> that
  \<^verbatim>\<open>Close\<close> defers, \<^verbatim>\<open>Close\<close> does not return: it panics, with the error of \<^verbatim>\<open>os.RemoveAll\<close>
  wrapped in the panic value.
\<close>

theorem cleanup_failure_panics:
  assumes "close_remove_err env = Some e" and "Close env se = Some (r, se')"
  shows "r = Panic (Errorf ''cannot remove temp files in %s: %s\<newline>'' e)"
proof -
  obtain x where "deferred_removeTempFiles (close_remove_err env) x = (r, se')"
    using assms(2) by (auto simp: Close_def)
  then have "r = fst (deferred_removeTempFiles (close_remove_err env) x)"
    by simp
  then show ?thesis
    by (simp add: deferred_removeTempFiles_result assms(1))
qed

theorem cleanup_failure_panics_witness:
  "close_remove_err (ok_env\<lparr>close_remove_err := Some (IOError ''device busy'')\<rparr>) =
     Some (IOError ''device busy'') \<and>
   Close (ok_env\<lparr>close_remove_err := Some (IOError ''device busy'')\<rparr>) (driver_engine 8) =
     Some (Panic (Errorf ''cannot remove temp files in %s: %s\<newline>'' (IOError ''device busy'')),
           driver_engine 8)"
proof -
  have c: "Close (ok_env\<lparr>close_remove_err := Some (IOError ''device busy'')\<rparr>) (driver_engine 8) =
     Some (Panic (Errorf ''cannot remove temp files in %s: %s\<newline>'' (IOError ''device busy'')),
           driver_engine 8)"
    by (simp add: Close_no_runs driver_engine_def ok_env_def deferred_removeTempFiles_def
      removeTempFiles_def)
  have h: "close_remove_err (ok_env\<lparr>close_remove_err := Some (IOError ''device busy'')\<rparr>) =
     Some (IOError ''device busy'')" by simp
  show ?thesis using cleanup_failure_panics [OF h c] h c by simp
qed

text \<open>
  The claim as the specification states it, that the failure is returned as an error value
  and never becomes a panic, is false: on an engine that has received nothing, with a removal
  that fails, \<^verbatim>\<open>Close\<close> panics.
\<close>

theorem cleanup_failure_counterexample:
  "Close (ok_env\<lparr>close_remove_err := Some (IOError ''permission denied'')\<rparr>) (driver_engine 4) =
     Some (Panic (Errorf ''cannot remove temp files in %s: %s\<newline>'' (IOError ''permission denied'')),
           driver_engine 4)"
  by (simp add: Close_no_runs driver_engine_def ok_env_def deferred_removeTempFiles_def
      removeTempFiles_def)

subsection \<open>Records of length zero\<close>

text \<open>
  Claim C10.  After any number of records of length 0 have been written to a new engine with
  a positive memory limit, the records are in the buffer and the counter is 0, so the test
  \<^verbatim>\<open>se.memUsed > 0\<close> of \<^verbatim>\<open>Close\<close> is false and no remainder flush happens: \<^verbatim>\<open>Close\<close> returns
  with no run created, the buffer dropped and nothing handed to the sink.
\<close>

theorem empty_records_discarded:
  assumes "0 < lim" and "\<forall>r\<in>set rs. r = []" and "New None out0 c l lim = Inr se0"
  shows "memoryBuffer (Writes io rs se0) = rs \<and>
         memUsed (Writes io rs se0) = 0 \<and>
         Close_flush env (Writes io rs se0) = (None, Writes io rs se0) \<and>
         (\<exists>r se'. Close env (Writes io rs se0) = Some (r, se') \<and>
                  out se' = out0 \<and> tmpFilesNumber se' = 0 \<and> memoryBuffer se' = [] \<and>
                  (sort_remove_err env = None \<and> close_remove_err env = None \<longrightarrow>
                     tmpDir se' = Map.empty \<and>
                     r = Return (case out_closer env of Some closeErr \<Rightarrow> closeErr | None \<Rightarrow> None)))"
proof -
  have se0: "se0 = \<lparr> memLimit = lim, memUsed = 0, tmpDir = Map.empty, chunkFunc = c,
                     lessFunc = l, out = out0, tmpFilesNumber = 0, memoryBuffer = [] \<rparr>"
    using assms(3) by (simp add: New_def)
  have w: "Writes io rs se0 = se0\<lparr>memoryBuffer := rs\<rparr>"
    using Writes_empty_records[of se0 rs io] assms(1,2) by (simp add: se0)
  have cl: "Close env (se0\<lparr>memoryBuffer := rs\<rparr>) =
     Some (deferred_removeTempFiles (close_remove_err env)
       (case sort_remove_err env of
          Some e \<Rightarrow> (Panic (Errorf ''cannot remove temp files in %s: %s\<newline>'' e),
                     se0\<lparr>memoryBuffer := rs, memoryBuffer := []\<rparr>)
        | None \<Rightarrow> (Return (case out_closer env of Some closeErr \<Rightarrow> closeErr | None \<Rightarrow> None),
                   se0\<lparr>memoryBuffer := rs, memoryBuffer := [], tmpDir := Map.empty\<rparr>)))"
    by (rule Close_no_runs) (simp_all add: se0)
  show ?thesis
    unfolding w cl
    by (auto simp: se0 Close_flush_def deferred_removeTempFiles_def removeTempFiles_def
        split: option.splits)
qed

theorem empty_records_discarded_witness:
  "(0::int) < 4 \<and> concat [[], []] = ([]::bytes) \<and>
   New None [] driver_chunkFunc driver_lessFunc 4 = Inr (driver_engine 4) \<and>
   memoryBuffer (Writes SpillOk [[], []] (driver_engine 4)) = [[], []] \<and>
   memUsed (Writes SpillOk [[], []] (driver_engine 4)) = 0 \<and>
   (\<exists>r se'. Close ok_env (Writes SpillOk [[], []] (driver_engine 4)) = Some (r, se') \<and>
      out se' = [] \<and> tmpFilesNumber se' = 0 \<and> r = Return None)"
  using empty_records_discarded [of 4 "[[], []]" "[]" driver_chunkFunc driver_lessFunc
      "driver_engine 4" SpillOk ok_env]
  by (auto simp: New_def driver_engine_def ok_env_def)

subsection \<open>Zero runs and one run\<close>

lemma open_files_one:
  "open_files openErr dir [0..<1] = Inr fs \<Longrightarrow> \<exists>content. dir 0 = Some content \<and> fs = [(0, content)]"
  by (auto split: option.splits)

lemma Close_flush_fields:
  "out (snd (Close_flush env se)) = out se"
  "chunkFunc (snd (Close_flush env se)) = chunkFunc se"
  "lessFunc (snd (Close_flush env se)) = lessFunc se"
  "memLimit (snd (Close_flush env se)) = memLimit se"
  by (simp_all add: Close_flush_def flushToTempFile_fields)

lemma Close_one_run:
  assumes "Close_flush env se = (None, se1)" and "tmpFilesNumber se1 = 1"
    and "open_err env 0 = None" and "tmpDir se1 0 = Some content"
  shows "Close env se =
     Some (deferred_removeTempFiles (close_remove_err env)
       (case copy_err env of
          Some (n, e) \<Rightarrow>
            (Return (Some (Errorf ''cannot write temp file content to output: %s\<newline>'' e)),
             se1\<lparr>memoryBuffer := [],
                 out := (if take n content = [] then out se else out se @ [take n content])\<rparr>)
        | None \<Rightarrow>
            (Return (case out_closer env of Some closeErr \<Rightarrow> closeErr | None \<Rightarrow> None),
             se1\<lparr>memoryBuffer := [],
                 out := (if content = [] then out se else out se @ [content])\<rparr>)))"
proof -
  have o: "out se1 = out se"
    using Close_flush_fields(1)[of env se] assms(1) by simp
  show ?thesis
    using assms
    by (simp add: Close_def Close_body_def io_Copy_def o split: option.splits prod.splits)
qed

text \<open>
  Claim C7.  Once the remainder flush has passed and the temp files are open: with exactly
  one run, \<^verbatim>\<open>Close\<close> hands the content of run 0 to the sink as it is and returns; with no run,
  \<^verbatim>\<open>Close\<close> returns and the sink has received nothing.  Both results are the same for every
  chunking strategy and every comparison, which are not consulted: no entry is pushed on or
  popped from the heap.
\<close>

theorem single_run_shortcut:
  assumes "Close_flush env se = (None, se1)"
    and "open_files (open_err env) (tmpDir se1) [0..<tmpFilesNumber se1] = Inr fs"
    and "copy_err env = None" and "sort_remove_err env = None" and "close_remove_err env = None"
  shows "(tmpFilesNumber se1 = 1 \<longrightarrow>
            (\<exists>content. tmpDir se1 0 = Some content \<and>
               Close env se =
                 Some (Return (case out_closer env of Some closeErr \<Rightarrow> closeErr | None \<Rightarrow> None),
                       se1\<lparr>memoryBuffer := [], tmpDir := Map.empty,
                           out := (if content = [] then out se else out se @ [content])\<rparr>))) \<and>
         (tmpFilesNumber se1 = 0 \<longrightarrow>
            Close env se =
              Some (Return (case out_closer env of Some closeErr \<Rightarrow> closeErr | None \<Rightarrow> None),
                    se1\<lparr>memoryBuffer := [], tmpDir := Map.empty\<rparr>) \<and>
            out se1 = out se)"
proof (intro conjI impI)
  assume one: "tmpFilesNumber se1 = 1"
  then obtain content where c: "tmpDir se1 0 = Some content"
    using open_files_one assms(2) by fastforce
  have oe: "open_err env 0 = None"
    using assms(2) one by (auto split: option.splits)
  show "\<exists>content. tmpDir se1 0 = Some content \<and>
               Close env se =
                 Some (Return (case out_closer env of Some closeErr \<Rightarrow> closeErr | None \<Rightarrow> None),
                       se1\<lparr>memoryBuffer := [], tmpDir := Map.empty,
                           out := (if content = [] then out se else out se @ [content])\<rparr>)"
    using Close_one_run[OF assms(1) one oe c] c assms(3,5)
    by (simp add: deferred_removeTempFiles_def removeTempFiles_def)
next
  assume zero: "tmpFilesNumber se1 = 0"
  have m: "memUsed se \<le> 0 \<and> se1 = se"
    using assms(1) zero by (cases "flush_io env")
      (auto simp: Close_flush_def flushToTempFile_def Let_def split: if_splits)
  show "Close env se =
              Some (Return (case out_closer env of Some closeErr \<Rightarrow> closeErr | None \<Rightarrow> None),
                    se1\<lparr>memoryBuffer := [], tmpDir := Map.empty\<rparr>)"
    using Close_no_runs[of se env] m zero assms(4,5)
    by (simp add: deferred_removeTempFiles_def removeTempFiles_def)
  show "out se1 = out se" using m by simp
qed

theorem single_run_shortcut_witness:
  "Close_flush ok_env (snd (Write SpillOk ''a\<newline>'' (driver_engine 4))) =
     (None, (driver_engine 4)\<lparr>tmpDir := [0 \<mapsto> ''a\<newline>''], tmpFilesNumber := 1\<rparr>) \<and>
   open_files (open_err ok_env) [0 \<mapsto> ''a\<newline>''] [0..<1] = Inr [(0, ''a\<newline>'')] \<and>
   Close ok_env (snd (Write SpillOk ''a\<newline>'' (driver_engine 4))) =
     Some (Return None, (driver_engine 4)\<lparr>tmpFilesNumber := 1, out := [''a\<newline>'']\<rparr>) \<and>
   Close_flush ok_env (driver_engine 4) = (None, driver_engine 4) \<and>
   Close ok_env (driver_engine 4) = Some (Return None, driver_engine 4)"
proof -
  have f1: "Close_flush ok_env (snd (Write SpillOk ''a\<newline>'' (driver_engine 4))) =
     (None, (driver_engine 4)\<lparr>tmpDir := [0 \<mapsto> ''a\<newline>''], tmpFilesNumber := 1\<rparr>)"
    by (simp add: Close_flush_def Write_def flushToTempFile_def sort_Sort_def driver_engine_def
        write_file_def ok_env_def)
  have o1: "open_files (open_err ok_env)
              (tmpDir ((driver_engine 4)\<lparr>tmpDir := [0 \<mapsto> ''a\<newline>''], tmpFilesNumber := 1\<rparr>))
              [0..<tmpFilesNumber ((driver_engine 4)\<lparr>tmpDir := [0 \<mapsto> ''a\<newline>''], tmpFilesNumber := 1\<rparr>)]
            = Inr [(0, ''a\<newline>'')]"
    by (simp add: ok_env_def)
  have f0: "Close_flush ok_env (driver_engine 4) = (None, driver_engine 4)"
    by (simp add: Close_flush_def driver_engine_def)
  have o0: "open_files (open_err ok_env) (tmpDir (driver_engine 4))
              [0..<tmpFilesNumber (driver_engine 4)] = Inr []"
    by (simp add: driver_engine_def)
  have e: "copy_err ok_env = None" "sort_remove_err ok_env = None" "close_remove_err ok_env = None"
    by (simp_all add: ok_env_def)
  show ?thesis
    using single_run_shortcut [OF f1 o1 e] single_run_shortcut [OF f0 o0 e] f1 f0
    by (simp add: driver_engine_def ok_env_def Write_fields)
qed

subsection \<open>The number of runs for records of one size\<close>

lemma ceil_div_le_iff: "0 < s \<Longrightarrow> ceil_div M s \<le> n \<longleftrightarrow> M \<le> n * s"
proof -
  assume s: "0 < s"
  have "ceil_div M s \<le> n \<longleftrightarrow> (M + s - 1) div s < Suc n"
    by (simp add: ceil_div_def less_Suc_eq_le)
  also have "\<dots> \<longleftrightarrow> M + s - 1 < Suc n * s"
    using s by (simp add: div_less_iff_less_mult)
  also have "\<dots> \<longleftrightarrow> M \<le> n * s"
    using s by auto
  finally show ?thesis .
qed

lemma ceil_div_pos: "0 < s \<Longrightarrow> 0 < M \<Longrightarrow> 0 < ceil_div M s"
  using ceil_div_le_iff[of s M 0] by auto

lemma ceil_div_unique:
  assumes "0 < s" and "\<And>n. c \<le> n \<longleftrightarrow> M \<le> n * s"
  shows "ceil_div M s = c"
proof (rule antisym)
  have "M \<le> c * s" using assms(2)[of c] by simp
  then show "ceil_div M s \<le> c" using ceil_div_le_iff[OF assms(1)] by simp
  have "M \<le> ceil_div M s * s" using ceil_div_le_iff[OF assms(1), of M "ceil_div M s"] by simp
  then show "c \<le> ceil_div M s" using assms(2) by simp
qed

lemma ceil_div_mult: "0 < s \<Longrightarrow> 0 < j \<Longrightarrow> ceil_div (k * s) (j * s) = ceil_div k j"
proof (rule ceil_div_unique)
  assume s: "0 < s" and j: "0 < j"
  show "0 < j * s" using s j by simp
  fix n
  have "ceil_div k j \<le> n \<longleftrightarrow> k \<le> n * j" by (rule ceil_div_le_iff[OF j])
  also have "\<dots> \<longleftrightarrow> k * s \<le> n * (j * s)" using s by simp
  finally show "ceil_div k j \<le> n \<longleftrightarrow> k * s \<le> n * (j * s)" .
qed

lemma ceil_div_eq: "0 < j \<Longrightarrow> ceil_div k j = k div j + (if k mod j = 0 then 0 else 1)"
proof (rule ceil_div_unique)
  assume j: "0 < j"
  then show "0 < j" .
  fix n
  show "(k div j + (if k mod j = 0 then 0 else 1) \<le> n) = (k \<le> n * j)"
  proof (cases "k mod j = 0")
    case True
    then have "k = k div j * j" by auto
    then have "k \<le> n * j \<longleftrightarrow> k div j * j \<le> n * j" by simp
    then show ?thesis using True j by simp
  next
    case False
    have "k \<le> n * j \<longleftrightarrow> k div j < n"
    proof
      assume "k \<le> n * j"
      then have "k < n * j" using False by (metis le_neq_implies_less mod_mult_self1_is_0 mult.commute)
      then show "k div j < n" using j by (simp add: div_less_iff_less_mult)
    next
      assume "k div j < n"
      then have "k < n * j" using j by (simp add: div_less_iff_less_mult)
      then show "k \<le> n * j" by simp
    qed
    then show ?thesis using False by auto
  qed
qed

lemma write_file_other: "i \<noteq> name \<Longrightarrow> write_file dir name new i = dir i"
  by (simp add: write_file_def)

lemma write_file_same:
  "\<exists>c. write_file dir name new name = Some c \<and> length new \<le> length c"
  by (auto simp: write_file_def split: option.splits)

lemma runs_nonempty_flush:
  assumes "runs_nonempty se" "0 < sum_list (map length (memoryBuffer se))"
  shows "runs_nonempty (snd (flushToTempFile SpillOk se))"
  unfolding runs_nonempty_def
proof (intro allI impI)
  fix i
  let ?new = "concat (sort_Sort (lessFunc se) (memoryBuffer se))"
  assume "i < tmpFilesNumber (snd (flushToTempFile SpillOk se))"
  then have i: "i < tmpFilesNumber se \<or> i = tmpFilesNumber se"
    by (auto simp: flushToTempFile_ok)
  have t: "tmpDir (snd (flushToTempFile SpillOk se)) = write_file (tmpDir se) (tmpFilesNumber se) ?new"
    by (simp add: flushToTempFile_ok)
  from i show "\<exists>c. tmpDir (snd (flushToTempFile SpillOk se)) i = Some c \<and> c \<noteq> []"
  proof
    assume "i < tmpFilesNumber se"
    then show ?thesis
      using assms(1) by (simp add: t write_file_other runs_nonempty_def)
  next
    assume e: "i = tmpFilesNumber se"
    obtain c where c: "write_file (tmpDir se) (tmpFilesNumber se) ?new (tmpFilesNumber se) = Some c"
      and l: "length ?new \<le> length c"
      using write_file_same by blast
    have "0 < length ?new"
      using assms(2) by (simp add: length_concat sum_length_sort_Sort)
    then have "c \<noteq> []" using l by auto
    then show ?thesis using c by (simp add: t e)
  qed
qed

lemma Writes_uniform:
  assumes s: "0 < s" and M: "0 < M" and u: "\<forall>r\<in>set rs. length r = s"
    and fresh: "memUsed se0 = 0" "memoryBuffer se0 = []" "tmpFilesNumber se0 = 0"
      "memLimit se0 = int M"
  shows "tmpFilesNumber (Writes SpillOk rs se0) = length rs div ceil_div M s \<and>
         sum_list (map length (memoryBuffer (Writes SpillOk rs se0))) = (length rs mod ceil_div M s) * s \<and>
         memUsed (Writes SpillOk rs se0) = int ((length rs mod ceil_div M s) * s) \<and>
         runs_nonempty (Writes SpillOk rs se0)"
  using u
proof (induction rs rule: rev_induct)
  case Nil
  then show ?case using fresh by (simp add: Writes_def runs_nonempty_def)
next
  case (snoc r rs)
  let ?j = "ceil_div M s"
  let ?k = "length rs"
  let ?se = "Writes SpillOk rs se0"
  let ?se1 = "?se\<lparr>memoryBuffer := memoryBuffer ?se @ [r], memUsed := memUsed ?se + int (length r)\<rparr>"
  have j: "0 < ?j" using ceil_div_pos[OF s M] .
  have r: "length r = s" using snoc.prems by simp
  have IH: "tmpFilesNumber ?se = ?k div ?j"
    "sum_list (map length (memoryBuffer ?se)) = (?k mod ?j) * s"
    "memUsed ?se = int ((?k mod ?j) * s)" "runs_nonempty ?se"
    using snoc by simp_all
  have lim: "memLimit ?se = int M" by (simp add: Writes_fields fresh)
  have used1: "memUsed ?se1 = int (Suc (?k mod ?j) * s)"
    by (simp add: IH r)
  have sum1: "sum_list (map length (memoryBuffer ?se1)) = Suc (?k mod ?j) * s"
    by (simp add: IH r)
  have spill: "memLimit ?se1 \<le> memUsed ?se1 \<longleftrightarrow> Suc (?k mod ?j) = ?j"
  proof -
    have "memLimit ?se1 = int M" by (simp add: lim)
    then have "memLimit ?se1 \<le> memUsed ?se1 \<longleftrightarrow> M \<le> Suc (?k mod ?j) * s"
      by (simp only: used1 of_nat_le_iff)
    also have "\<dots> \<longleftrightarrow> ?j \<le> Suc (?k mod ?j)"
      using ceil_div_le_iff[OF s] by simp
    also have "\<dots> \<longleftrightarrow> Suc (?k mod ?j) = ?j"
      using mod_less_divisor[OF j, of ?k] by auto
    finally show ?thesis .
  qed
  have W: "Writes SpillOk (rs @ [r]) se0 =
             (if memLimit ?se1 \<le> memUsed ?se1 then snd (flushToTempFile SpillOk ?se1) else ?se1)"
    by (simp add: Writes_snoc Write_def Let_def flushToTempFile_ok)
  show ?case
  proof (cases "Suc (?k mod ?j) = ?j")
    case True
    then have W': "Writes SpillOk (rs @ [r]) se0 = snd (flushToTempFile SpillOk ?se1)"
      using W spill by simp
    have m: "Suc ?k mod ?j = 0" and d: "Suc ?k div ?j = Suc (?k div ?j)"
      using True by (simp_all add: mod_Suc div_Suc)
    have ne: "runs_nonempty ?se1" using IH(4) by (simp add: runs_nonempty_def)
    have "runs_nonempty (snd (flushToTempFile SpillOk ?se1))"
      by (rule runs_nonempty_flush[OF ne]) (use sum1 s in simp)
    then show ?thesis
      unfolding W' using m d IH(1) by (simp add: flushToTempFile_ok)
  next
    case False
    then have W': "Writes SpillOk (rs @ [r]) se0 = ?se1"
      using W spill by simp
    have m: "Suc ?k mod ?j = Suc (?k mod ?j)" and d: "Suc ?k div ?j = ?k div ?j"
      using False by (simp_all add: mod_Suc div_Suc)
    have ne: "runs_nonempty ?se1" using IH(4) by (simp add: runs_nonempty_def)
    show ?thesis
      unfolding W' using m d IH(1) ne used1 sum1 by (simp del: mult_Suc)
  qed
qed

lemma New_fresh:
  "New None out0 c l lim = Inr se0 \<Longrightarrow>
     memUsed se0 = 0 \<and> memoryBuffer se0 = [] \<and> tmpFilesNumber se0 = 0 \<and> memLimit se0 = lim \<and>
     out se0 = out0 \<and> chunkFunc se0 = c \<and> lessFunc se0 = l \<and> tmpDir se0 = Map.empty"
  by (auto simp: New_def)

text \<open>Evaluating the model on concrete inputs unfolds these definitions.\<close>

lemmas eval_defs = Writes_def Write_def flushToTempFile_def sort_Sort_def driver_engine_def
  driver_lessFunc_def driver_chunkFunc_def ok_env_def Close_def Close_body_def Close_flush_def
  write_file_def sortEngine_sort_def sort_loop.simps fillHeap_def fillHeap_from.simps
  fillHeap_file.simps Len_def NewHeap_def NewEntry_def heap_Push_def heap_Pop_def Push_def Pop_def
  Swap_def Less_def io_Copy_def deferred_removeTempFiles_def removeTempFiles_def
  advance_def delete_def signed_divide_int_def memoryBufferFlushErr_def

text \<open>
  Claim C4, as the code has it.  A spill happens when the counter reaches the limit \<open>M\<close>, so
  with records of \<open>s\<close> bytes each a run holds \<open>ceil (M / s)\<close> records, which may be more than
  \<open>M\<close> bytes.  For \<open>k\<close> records written to a new engine and all spills succeeding, the number
  of runs after the remainder flush of \<^verbatim>\<open>Close\<close> is \<open>ceil (k / ceil (M / s))\<close>; this is
  \<open>ceil (N / M)\<close> for the \<open>N = k * s\<close> bytes written when \<open>s\<close> divides \<open>M\<close>.  No run is empty,
  and \<^verbatim>\<open>Close\<close> ends with that run count.
\<close>

theorem run_count_uniform_records:
  assumes "0 < s" and "0 < M" and "\<forall>r\<in>set rs. length r = s"
    and "New None out0 c l (int M) = Inr se0" and "flush_io env = SpillOk"
  shows "tmpFilesNumber (snd (Close_flush env (Writes SpillOk rs se0))) =
           ceil_div (length rs) (ceil_div M s) \<and>
         (s dvd M \<longrightarrow> tmpFilesNumber (snd (Close_flush env (Writes SpillOk rs se0))) =
           ceil_div (length rs * s) M) \<and>
         runs_nonempty (snd (Close_flush env (Writes SpillOk rs se0))) \<and>
         (\<forall>r se'. Close env (Writes SpillOk rs se0) = Some (r, se') \<longrightarrow>
            tmpFilesNumber se' = ceil_div (length rs) (ceil_div M s))"
proof -
  let ?j = "ceil_div M s"
  let ?se = "Writes SpillOk rs se0"
  let ?se1 = "snd (Close_flush env ?se)"
  have j: "0 < ?j" using ceil_div_pos[OF assms(1,2)] .
  have f: "memUsed se0 = 0" "memoryBuffer se0 = []" "tmpFilesNumber se0 = 0" "memLimit se0 = int M"
    using New_fresh[OF assms(4)] by simp_all
  have w: "tmpFilesNumber ?se = length rs div ?j"
    "sum_list (map length (memoryBuffer ?se)) = (length rs mod ?j) * s"
    "memUsed ?se = int ((length rs mod ?j) * s)" "runs_nonempty ?se"
    using Writes_uniform[OF assms(1,2,3) f] by simp_all
  have "0 < memUsed ?se \<longleftrightarrow> 0 < (length rs mod ?j) * s"
    by (simp only: w(3) of_nat_0_less_iff)
  then have pos: "0 < memUsed ?se \<longleftrightarrow> length rs mod ?j \<noteq> 0"
    using assms(1) by simp
  have n: "tmpFilesNumber ?se1 = ceil_div (length rs) ?j"
    using pos w(1) by (simp add: Close_flush_def assms(5) flushToTempFile_ok ceil_div_eq[OF j])
  have ne: "runs_nonempty ?se1"
  proof (cases "0 < memUsed ?se")
    case True
    then have "0 < sum_list (map length (memoryBuffer ?se))"
      using pos assms(1) by (simp add: w(2))
    from runs_nonempty_flush[OF w(4) this] True show ?thesis
      by (simp add: Close_flush_def assms(5))
  next
    case False
    then show ?thesis using w(4) by (simp add: Close_flush_def)
  qed
  have dv: "s dvd M \<longrightarrow> ceil_div (length rs) ?j = ceil_div (length rs * s) M"
  proof
    assume "s dvd M"
    then obtain q where q: "M = q * s" by (metis dvd_def mult.commute)
    then have q0: "0 < q" using assms(2) by (cases q) auto
    have "ceil_div M s = q"
      unfolding q using ceil_div_mult[OF assms(1), of 1 q] by (simp add: ceil_div_def)
    then show "ceil_div (length rs) ?j = ceil_div (length rs * s) M"
      using ceil_div_mult[OF assms(1) q0, of "length rs"] q by simp
  qed
  show ?thesis
    using n ne dv Close_fields(1) by auto
qed

theorem run_count_uniform_records_witness:
  "(0::nat) < 3 \<and> (0::nat) < 6 \<and>
   map length [''dd\<newline>'', ''bb\<newline>'', ''cc\<newline>'', ''aa\<newline>''] = [3, 3, 3, 3] \<and>
   New None [] driver_chunkFunc driver_lessFunc (int 6) = Inr (driver_engine 6) \<and>
   flush_io ok_env = SpillOk \<and> (3::nat) dvd 6 \<and>
   tmpFilesNumber (snd (Close_flush ok_env
      (Writes SpillOk [''dd\<newline>'', ''bb\<newline>'', ''cc\<newline>'', ''aa\<newline>''] (driver_engine 6)))) = 2 \<and>
   ceil_div (4 * 3) 6 = 2 \<and>
   (\<exists>r se'. Close ok_env
      (Writes SpillOk [''dd\<newline>'', ''bb\<newline>'', ''cc\<newline>'', ''aa\<newline>''] (driver_engine 6)) = Some (r, se') \<and>
      tmpFilesNumber se' = 2)"
proof -
  have c: "\<exists>r se'. Close ok_env
      (Writes SpillOk [''dd\<newline>'', ''bb\<newline>'', ''cc\<newline>'', ''aa\<newline>''] (driver_engine 6)) = Some (r, se')"
    by (simp add: eval_defs)
  have n: "New None [] driver_chunkFunc driver_lessFunc (int 6) = Inr (driver_engine 6)"
    by (simp add: New_def driver_engine_def)
  have u: "\<forall>r\<in>set [''dd\<newline>'', ''bb\<newline>'', ''cc\<newline>'', ''aa\<newline>'']. length r = 3"
    by simp
  have f: "flush_io ok_env = SpillOk" by (simp add: ok_env_def)
  have d: "ceil_div 4 (ceil_div 6 3) = 2" "ceil_div (4 * 3) 6 = 2" "(3::nat) dvd 6"
    by (simp_all add: ceil_div_def)
  show ?thesis
    using run_count_uniform_records [OF _ _ u n f] c n u f d
    by auto
qed

text \<open>
  The claim as the specification states it, \<open>ceil (N / M)\<close> runs for every uniform record
  size, is false: four records of 3 bytes with limit 4 make 2 runs of 6 bytes, not
  \<open>ceil (12 / 4) = 3\<close> runs.
\<close>

theorem run_count_counterexample:
  "tmpFilesNumber (snd (Close_flush ok_env
      (Writes SpillOk [''dd\<newline>'', ''bb\<newline>'', ''cc\<newline>'', ''aa\<newline>''] (driver_engine 4)))) = 2 \<and>
   ceil_div (4 * 3) 4 = 3"
  by (simp add: eval_defs ceil_div_def)

subsection \<open>The refill phase and the bound of its loop\<close>

text \<open>
  Claim C3 asks that a refill reads from every run whose reader is open.  The loop of
  \<^verbatim>\<open>fillHeap\<close> runs \<open>i\<close> from 0 while \<^verbatim>\<open>i < len(files)\<close>, and \<^verbatim>\<open>len(files)\<close> shrinks with every
  \<^verbatim>\<open>delete\<close>: once a run has been exhausted, the runs with the highest numbers are no longer
  visited, and an index whose key is gone yields the \<^verbatim>\<open>nil\<close> reader.  With memory limit 0 the
  three records \<open>[]\<close>, \<open>''a\<newline>''\<close>, \<open>''b\<newline>''\<close> become the three runs 0, 1, 2.  The first refill
  (budget \<open>0 / 4 = 0\<close>) finds run 0 empty and deletes it, stages \<open>''a\<newline>''\<close> from run 1 and stops
  at \<open>i = 2\<close> because two files are left: run 2 keeps its open reader with \<open>''b\<newline>''\<close> unread
  and has no entry on the heap.  After \<open>''a\<newline>''\<close> is written and run 1 is exhausted the heap is
  empty; the second refill starts at \<open>i = 0\<close>, whose key is gone, and the driver's chunker
  panics on the \<^verbatim>\<open>nil\<close> reader.  \<^verbatim>\<open>Close\<close> panics and \<open>''b\<newline>''\<close> never reaches the sink.
\<close>

theorem refill_skips_open_run:
  "Writes SpillOk ['''', ''a\<newline>'', ''b\<newline>''] (driver_engine 0) =
     (driver_engine 0)\<lparr>tmpDir := [0 \<mapsto> '''', 1 \<mapsto> ''a\<newline>'', 2 \<mapsto> ''b\<newline>''],
                        tmpFilesNumber := 3\<rparr> \<and>
   fillHeap driver_chunkFunc driver_lessFunc (0 sdiv (3 + 1))
       [(0, ''''), (1, ''a\<newline>''), (2, ''b\<newline>'')] NewHeap =
     Some (Return (None, [(1, ''''), (2, ''b\<newline>'')], [Entry 1 ''a\<newline>''])) \<and>
   Close ok_env (Writes SpillOk ['''', ''a\<newline>'', ''b\<newline>''] (driver_engine 0)) =
     Some (Panic (IOError ''invalid memory address or nil pointer dereference''),
           (driver_engine 0)\<lparr>tmpFilesNumber := 3, out := [''a\<newline>'']\<rparr>)"
  by (simp add: eval_defs numeral_2_eq_2)

section \<open>The merge sorts and loses nothing\<close>

subsection \<open>The binary heap of \<^verbatim>\<open>container/heap\<close>\<close>

declare up.simps [simp del] down.simps [simp del]

lemma swo_asym: "strict_weak_order l \<Longrightarrow> l a b \<Longrightarrow> \<not> l b a"
  unfolding strict_weak_order_def by blast

lemma swo_trans: "strict_weak_order l \<Longrightarrow> l a b \<Longrightarrow> l b c \<Longrightarrow> l a c"
  unfolding strict_weak_order_def by blast

lemma swo_le_trans: "strict_weak_order l \<Longrightarrow> \<not> l b a \<Longrightarrow> \<not> l c b \<Longrightarrow> \<not> l c a"
  unfolding strict_weak_order_def by blast

lemma length_Swap [simp]: "length (Swap fh i j) = length fh"
  by (simp add: Swap_def)

lemma mset_Swap: "i < length fh \<Longrightarrow> j < length fh \<Longrightarrow> mset (Swap fh i j) = mset fh"
  by (simp add: Swap_def mset_swap)

lemma nth_Swap:
  "i < length fh \<Longrightarrow> j < length fh \<Longrightarrow> k < length fh \<Longrightarrow>
     Swap fh i j ! k = (if k = j then fh ! i else if k = i then fh ! j else fh ! k)"
  by (simp add: Swap_def nth_list_update)

lemma nth_Swap_outside:
  "k \<noteq> i \<Longrightarrow> k \<noteq> j \<Longrightarrow> Swap fh i j ! k = fh ! k"
  by (simp add: Swap_def)

lemma length_up [simp]: "length (up l fh j) = length fh"
  by (induction l fh j rule: up.induct) (subst up.simps, simp)

lemma mset_up: "j < length fh \<Longrightarrow> mset (up l fh j) = mset fh"
proof (induction l fh j rule: up.induct)
  case (1 l fh j)
  have p: "(j - 1) div 2 < length fh" using "1.prems" by auto
  show ?case
    using 1 p by (subst up.simps) (simp add: mset_Swap)
qed

lemma length_down [simp]: "length (down l fh i n) = length fh"
  by (induction l fh i n rule: down.induct) (subst down.simps, simp)

lemma mset_down: "n \<le> length fh \<Longrightarrow> mset (down l fh i n) = mset fh"
proof (induction l fh i n rule: down.induct)
  case (1 l fh i n)
  show ?case
  proof (cases "2 * i + 1 \<ge> n")
    case True
    then show ?thesis by (subst down.simps) simp
  next
    case False
    let ?j = "if 2 * i + 2 < n \<and> Less l fh (2 * i + 2) (2 * i + 1) then 2 * i + 2 else 2 * i + 1"
    have j: "?j < n" "i < n" using False by auto
    show ?thesis
    proof (cases "Less l fh ?j i")
      case False
      then show ?thesis using \<open>\<not> 2 * i + 1 \<ge> n\<close> by (subst down.simps) simp
    next
      case True
      have "mset (down l (Swap fh i ?j) ?j n) = mset (Swap fh i ?j)"
        using "1.IH" \<open>\<not> 2 * i + 1 \<ge> n\<close> True "1.prems" by simp
      also have "\<dots> = mset fh"
        using j "1.prems" by (intro mset_Swap) auto
      finally show ?thesis
        using \<open>\<not> 2 * i + 1 \<ge> n\<close> True by (subst down.simps) simp
    qed
  qed
qed

lemma down_outside: "n \<le> k \<Longrightarrow> down l fh i n ! k = fh ! k"
proof (induction l fh i n rule: down.induct)
  case (1 l fh i n)
  show ?case
  proof (cases "2 * i + 1 \<ge> n")
    case True
    then show ?thesis by (subst down.simps) simp
  next
    case False
    let ?j = "if 2 * i + 2 < n \<and> Less l fh (2 * i + 2) (2 * i + 1) then 2 * i + 2 else 2 * i + 1"
    have j: "?j < n" "i < n" using False by auto
    show ?thesis
    proof (cases "Less l fh ?j i")
      case False
      then show ?thesis using \<open>\<not> 2 * i + 1 \<ge> n\<close> by (subst down.simps) simp
    next
      case True
      have "down l (Swap fh i ?j) ?j n ! k = Swap fh i ?j ! k"
        using "1.IH" \<open>\<not> 2 * i + 1 \<ge> n\<close> True "1.prems" by simp
      also have "\<dots> = fh ! k"
        using j "1.prems" by (intro nth_Swap_outside) auto
      finally show ?thesis
        using \<open>\<not> 2 * i + 1 \<ge> n\<close> True by (subst down.simps) simp
    qed
  qed
qed

lemma parent_less: "0 < k \<Longrightarrow> (k - 1) div 2 < (k::nat)"
  by auto

lemma Less_Swap:
  assumes "i < length fh" "j < length fh" "a < length fh" "b < length fh"
  shows "Less l (Swap fh i j) a b =
           l (Data (if a = j then fh ! i else if a = i then fh ! j else fh ! a))
             (Data (if b = j then fh ! i else if b = i then fh ! j else fh ! b))"
  using assms by (simp add: Less_def nth_Swap)

lemma heap_except_up_Swap:
  assumes swo: "strict_weak_order l"
    and ex: "heap_except_up l fh j"
    and jlen: "j < length fh"
    and i: "i = (j - 1) div 2"
    and ij: "i \<noteq> j"
    and lt: "Less l fh j i"
  shows "heap_except_up l (Swap fh i j) i"
proof -
  have j0: "0 < j" using ij i by (cases j) auto
  have i_lt: "i < j" using parent_less[OF j0] i by simp
  have ilen: "i < length fh" using i_lt jlen by simp
  have ljl: "l (Data (fh ! j)) (Data (fh ! i))" using lt by (simp add: Less_def)
  have ex1: "\<not> l (Data (fh ! k)) (Data (fh ! p))"
    if "0 < k" "k < length fh" "k \<noteq> j" "p = (k - 1) div 2" for k p
    using ex that by (simp add: heap_except_up_def Less_def)
  have ex2: "\<not> l (Data (fh ! k)) (Data (fh ! i))"
    if "k < length fh" "k \<noteq> j" "(k - 1) div 2 = j" for k
    using ex j0 that by (simp add: heap_except_up_def Less_def i)
  show ?thesis
    unfolding heap_except_up_def
  proof (intro conjI allI impI)
    fix k assume k: "0 < k \<and> k < length (Swap fh i j) \<and> k \<noteq> i"
    define p where "p = (k - 1) div 2"
    from k have k0: "0 < k" and klen: "k < length fh" and ki: "k \<noteq> i" by simp_all
    have pk: "p < k" using parent_less[OF k0] by (simp add: p_def)
    have plen: "p < length fh" using pk klen by simp
    have "\<not> l (Data (if k = j then fh ! i else if k = i then fh ! j else fh ! k))
              (Data (if p = j then fh ! i else if p = i then fh ! j else fh ! p))"
    proof (cases "k = j")
      case True
      then have "p = i" by (simp add: p_def i)
      then show ?thesis using True ij swo_asym[OF swo ljl] by simp
    next
      case kj: False
      show ?thesis
      proof (cases "p = j")
        case True
        then show ?thesis using kj ki ex2[OF klen kj] by (simp add: p_def)
      next
        case pj: False
        show ?thesis
        proof (cases "p = i")
          case True
          have "\<not> l (Data (fh ! k)) (Data (fh ! i))"
            using ex1[OF k0 klen kj p_def] True by simp
          then have "\<not> l (Data (fh ! k)) (Data (fh ! j))"
            using swo_trans[OF swo _ ljl] by blast
          then show ?thesis using kj ki True ij by simp
        next
          case False
          then show ?thesis using kj ki pj ex1[OF k0 klen kj p_def] by simp
        qed
      qed
    qed
    then show "\<not> Less l (Swap fh i j) k ((k - 1) div 2)"
      using Less_Swap[OF ilen jlen klen plen] by (simp add: p_def)
  next
    fix k assume k: "0 < i \<and> k < length (Swap fh i j) \<and> k \<noteq> i \<and> (k - 1) div 2 = i"
    define g where "g = (i - 1) div 2"
    from k have i0: "0 < i" and klen: "k < length fh" and ki: "k \<noteq> i" and pk: "(k - 1) div 2 = i"
      by simp_all
    have gi: "g < i" using parent_less[OF i0] by (simp add: g_def)
    have glen: "g < length fh" using gi ilen by simp
    have gj: "g \<noteq> j" using gi i_lt by simp
    have gi': "g \<noteq> i" using gi by simp
    have k0: "0 < k" using pk i0 by (cases k) auto
    have pi: "\<not> l (Data (fh ! i)) (Data (fh ! g))"
      using ex1[OF i0 ilen ij g_def] .
    have "\<not> l (Data (if k = j then fh ! i else if k = i then fh ! j else fh ! k))
              (Data (if g = j then fh ! i else if g = i then fh ! j else fh ! g))"
    proof (cases "k = j")
      case True
      then show ?thesis using gj gi' pi by simp
    next
      case False
      have "\<not> l (Data (fh ! k)) (Data (fh ! i))" using ex1[OF k0 klen False] pk by simp
      then have "\<not> l (Data (fh ! k)) (Data (fh ! g))"
        using swo_le_trans[OF swo pi] by blast
      then show ?thesis using False ki gj gi' by simp
    qed
    then show "\<not> Less l (Swap fh i j) k ((i - 1) div 2)"
      using Less_Swap[OF ilen jlen klen glen] by (simp add: g_def)
  qed
qed

lemma heap_upto_up:
  "strict_weak_order l \<Longrightarrow> heap_except_up l fh j \<Longrightarrow> j < length fh \<Longrightarrow>
     heap_upto l (up l fh j) (length fh)"
proof (induction l fh j rule: up.induct)
  case (1 l fh j)
  define i where "i = (j - 1) div 2"
  note swo = "1.prems"(1)
  note ex = "1.prems"(2)
  show ?case
  proof (cases "i = j \<or> \<not> Less l fh j i")
    case True
    then have T: "(j - 1) div 2 = j \<or> \<not> Less l fh j ((j - 1) div 2)" by (simp add: i_def)
    have "heap_upto l fh (length fh)"
      unfolding heap_upto_def
    proof (intro allI impI)
      fix k assume k: "0 < k \<and> k < length fh"
      show "\<not> Less l fh k ((k - 1) div 2)"
      proof (cases "k = j")
        case False then show ?thesis using ex k by (simp add: heap_except_up_def)
      next
        case kj: True
        then have "i \<noteq> j" using k parent_less[of j] by (auto simp: i_def)
        then show ?thesis using True kj by (simp add: i_def)
      qed
    qed
    then show ?thesis using T by (subst up.simps) simp
  next
    case False
    then have F: "\<not> ((j - 1) div 2 = j \<or> \<not> Less l fh j ((j - 1) div 2))" by (simp add: i_def)
    from False have ij: "i \<noteq> j" and lt: "Less l fh j i" by auto
    have "i < j" using ij parent_less[of j] by (cases j) (auto simp: i_def)
    then have ilen: "i < length fh" using "1.prems"(3) by simp
    have "heap_except_up l (Swap fh i j) i"
      using heap_except_up_Swap[OF swo ex "1.prems"(3) i_def ij lt] .
    then have "heap_upto l (up l (Swap fh i j) i) (length (Swap fh i j))"
      using "1.IH"[OF F swo] ilen by (simp add: i_def)
    then show ?thesis using F by (subst up.simps) (simp add: i_def)
  qed
qed

lemma child_cases: "0 < k \<Longrightarrow> (k - 1) div 2 = i \<Longrightarrow> k = 2 * i + 1 \<or> k = 2 * i + 2" for k i :: nat
  by (cases k) auto

lemma heap_except_down_Swap:
  assumes swo: "strict_weak_order l"
    and ex: "heap_except_down l fh i n"
    and n: "n \<le> length fh"
    and c: "2 * i + 1 < n"
    and j: "j = (if 2 * i + 2 < n \<and> Less l fh (2 * i + 2) (2 * i + 1) then 2 * i + 2 else 2 * i + 1)"
    and lt: "Less l fh j i"
  shows "heap_except_down l (Swap fh i j) j n"
proof -
  have jn: "j < n" using c j by auto
  have ij: "i < j" using j by auto
  have pj: "(j - 1) div 2 = i" using j by auto
  have jlen: "j < length fh" and ilen: "i < length fh" using jn ij n by simp_all
  have ljl: "l (Data (fh ! j)) (Data (fh ! i))" using lt by (simp add: Less_def)
  have ex1: "\<not> l (Data (fh ! k)) (Data (fh ! p))"
    if "0 < k" "k < n" "p = (k - 1) div 2" "p \<noteq> i" for k p
    using ex that by (simp add: heap_except_down_def Less_def)
  have ex2: "\<not> l (Data (fh ! k)) (Data (fh ! g))"
    if "0 < i" "0 < k" "k < n" "(k - 1) div 2 = i" "g = (i - 1) div 2" for k g
    using ex that by (simp add: heap_except_down_def Less_def)
  have other: "\<not> l (Data (fh ! k)) (Data (fh ! j))"
    if "0 < k" "k < n" "(k - 1) div 2 = i" "k \<noteq> j" for k
  proof -
    from child_cases[OF that(1,3)] show ?thesis
    proof
      assume k: "k = 2 * i + 1"
      then have "j = 2 * i + 2" using j that(4) by (auto split: if_splits)
      then have "Less l fh j k" using j k by (auto split: if_splits)
      then show ?thesis using swo_asym[OF swo] by (auto simp: Less_def)
    next
      assume k: "k = 2 * i + 2"
      then have "j = 2 * i + 1" using j that(4) by (auto split: if_splits)
      then have "\<not> Less l fh k j" using j k that(2) by (auto split: if_splits)
      then show ?thesis by (simp add: Less_def)
    qed
  qed
  show ?thesis
    unfolding heap_except_down_def
  proof (intro conjI allI impI)
    fix k assume k: "0 < k \<and> k < n \<and> (k - 1) div 2 \<noteq> j"
    define p where "p = (k - 1) div 2"
    from k have k0: "0 < k" and kn: "k < n" and pnj: "p \<noteq> j" by (simp_all add: p_def)
    have pk: "p < k" using parent_less[OF k0] by (simp add: p_def)
    have klen: "k < length fh" and plen: "p < length fh" using kn pk n by simp_all
    have "\<not> l (Data (if k = j then fh ! i else if k = i then fh ! j else fh ! k))
              (Data (if p = j then fh ! i else if p = i then fh ! j else fh ! p))"
    proof (cases "k = j")
      case True
      then have "p = i" using pj by (simp add: p_def)
      then show ?thesis using True ij swo_asym[OF swo ljl] by simp
    next
      case kj: False
      show ?thesis
      proof (cases "k = i")
        case True
        then have i0: "0 < i" using k0 by simp
        have "p \<noteq> i" using pk True by simp
        moreover have "\<not> l (Data (fh ! j)) (Data (fh ! p))"
          using ex2[OF i0 _ jn pj] ij True by (simp add: p_def)
        ultimately show ?thesis using True kj pnj by simp
      next
        case ki: False
        show ?thesis
        proof (cases "p = i")
          case True
          then show ?thesis using kj ki pnj other[OF k0 kn _ kj] by (simp add: p_def)
        next
          case False
          then show ?thesis using kj ki pnj ex1[OF k0 kn p_def] by simp
        qed
      qed
    qed
    then show "\<not> Less l (Swap fh i j) k ((k - 1) div 2)"
      using Less_Swap[OF ilen jlen klen plen] by (simp add: p_def)
  next
    fix k assume k: "0 < j \<and> 0 < k \<and> k < n \<and> (k - 1) div 2 = j"
    then have k0: "0 < k" and kn: "k < n" and pk: "(k - 1) div 2 = j" by simp_all
    have jk: "j < k" using parent_less[OF k0] pk by simp
    have klen: "k < length fh" using kn n by simp
    have kj: "k \<noteq> j" and ki: "k \<noteq> i" using jk ij by simp_all
    have "\<not> l (Data (fh ! k)) (Data (fh ! j))"
      using ex1[OF k0 kn] pk ij by simp
    then have "\<not> l (Data (if k = j then fh ! i else if k = i then fh ! j else fh ! k))
              (Data (if i = j then fh ! i else if i = i then fh ! j else fh ! i))"
      using kj ki ij by simp
    then show "\<not> Less l (Swap fh i j) k ((j - 1) div 2)"
      unfolding pj using Less_Swap[OF ilen jlen klen ilen, of l] by simp
  qed
qed

lemma heap_except_down_done:
  assumes swo: "strict_weak_order l"
    and ex: "heap_except_down l fh i n"
    and stop: "2 * i + 1 \<ge> n \<or>
       \<not> Less l fh (if 2 * i + 2 < n \<and> Less l fh (2 * i + 2) (2 * i + 1) then 2 * i + 2
                     else 2 * i + 1) i"
  shows "heap_upto l fh n"
  unfolding heap_upto_def
proof (intro allI impI)
  fix k assume k: "0 < k \<and> k < n"
  then have k0: "0 < k" and kn: "k < n" by simp_all
  define j where "j = (if 2 * i + 2 < n \<and> Less l fh (2 * i + 2) (2 * i + 1) then 2 * i + 2
                     else 2 * i + 1)"
  show "\<not> Less l fh k ((k - 1) div 2)"
  proof (cases "(k - 1) div 2 = i")
    case False
    then show ?thesis using ex k by (simp add: heap_except_down_def)
  next
    case True
    from child_cases[OF k0 True] have c: "2 * i + 1 < n" using kn by auto
    then have nl: "\<not> l (Data (fh ! j)) (Data (fh ! i))"
      using stop by (simp add: j_def Less_def)
    have "\<not> l (Data (fh ! k)) (Data (fh ! i))"
    proof (cases "k = j")
      case True then show ?thesis using nl by simp
    next
      case False
      from child_cases[OF k0 \<open>(k - 1) div 2 = i\<close>] show ?thesis
      proof
        assume k1: "k = 2 * i + 1"
        then have "j = 2 * i + 2" and "l (Data (fh ! j)) (Data (fh ! k))"
          using False by (auto simp: j_def Less_def split: if_splits)
        then show ?thesis using nl swo_trans[OF swo] by blast
      next
        assume k2: "k = 2 * i + 2"
        then have "j = 2 * i + 1" and "\<not> l (Data (fh ! k)) (Data (fh ! j))"
          using False kn by (auto simp: j_def Less_def split: if_splits)
        then show ?thesis using swo_le_trans[OF swo nl] by blast
      qed
    qed
    then show ?thesis using True by (simp add: Less_def)
  qed
qed

lemma heap_upto_down:
  "strict_weak_order l \<Longrightarrow> heap_except_down l fh i n \<Longrightarrow> n \<le> length fh \<Longrightarrow>
     heap_upto l (down l fh i n) n"
proof (induction l fh i n rule: down.induct)
  case (1 l fh i n)
  define j where "j = (if 2 * i + 2 < n \<and> Less l fh (2 * i + 2) (2 * i + 1) then 2 * i + 2
                     else 2 * i + 1)"
  note swo = "1.prems"(1)
  show ?case
  proof (cases "2 * i + 1 \<ge> n \<or> \<not> Less l fh j i")
    case True
    then have "heap_upto l fh n"
      using heap_except_down_done[OF swo "1.prems"(2)] by (simp add: j_def)
    moreover have "down l fh i n = fh"
      using True by (subst down.simps) (auto simp: j_def)
    ultimately show ?thesis by simp
  next
    case False
    then have c: "2 * i + 1 < n" and lt: "Less l fh j i" by auto
    have e: "heap_except_down l (Swap fh i j) j n"
      using heap_except_down_Swap[OF swo "1.prems"(2,3) c j_def lt] .
    have "heap_upto l (down l (Swap fh i j) j n) n"
      using "1.IH"[OF _ _ swo] c lt e "1.prems"(3) by (simp add: j_def)
    moreover have "down l fh i n = down l (Swap fh i j) j n"
      using c lt by (subst down.simps) (simp add: j_def)
    ultimately show ?thesis by simp
  qed
qed

text \<open>\<^verbatim>\<open>heap.Push\<close> and \<^verbatim>\<open>heap.Pop\<close> keep the heap property, and \<^verbatim>\<open>heap.Pop\<close> returns a least entry.\<close>

lemma mset_heap_Push: "mset (heap_Push l fh x) = add_mset x (mset fh)"
  by (simp add: heap_Push_def Push_def Len_def mset_up)

lemma length_heap_Push: "length (heap_Push l fh x) = Suc (length fh)"
  by (simp add: heap_Push_def Push_def Len_def)

lemma heap_upto_heap_Push:
  assumes swo: "strict_weak_order l" and h: "heap_upto l fh (length fh)"
  shows "heap_upto l (heap_Push l fh x) (length (heap_Push l fh x))"
proof -
  have "heap_except_up l (fh @ [x]) (length fh)"
    unfolding heap_except_up_def
  proof (intro conjI allI impI)
    fix k assume k: "0 < k \<and> k < length (fh @ [x]) \<and> k \<noteq> length fh"
    then have kl: "k < length fh" and k0: "0 < k" by simp_all
    then have "(k - 1) div 2 < length fh" using parent_less[OF k0] by simp
    then show "\<not> Less l (fh @ [x]) k ((k - 1) div 2)"
      using h k0 kl by (simp add: heap_upto_def Less_def nth_append)
  next
    fix k assume k: "0 < length fh \<and> k < length (fh @ [x]) \<and> k \<noteq> length fh \<and>
                     (k - 1) div 2 = length fh"
    then have "k < length fh" by simp
    moreover have "(k - 1) div 2 \<le> k" by simp
    ultimately have False using k by simp
    then show "\<not> Less l (fh @ [x]) k ((length fh - 1) div 2)" ..
  qed
  then have "heap_upto l (up l (fh @ [x]) (length fh)) (length (fh @ [x]))"
    by (intro heap_upto_up[OF swo]) simp_all
  then show ?thesis
    by (simp add: heap_Push_def Push_def Len_def)
qed

lemma heap_root_min:
  assumes swo: "strict_weak_order l" and h: "heap_upto l fh n"
  shows "k < n \<Longrightarrow> \<not> l (Data (fh ! k)) (Data (fh ! 0))"
proof (induction k rule: less_induct)
  case (less k)
  show ?case
  proof (cases "k = 0")
    case True
    then show ?thesis using swo by (simp add: strict_weak_order_def)
  next
    case False
    then have k0: "0 < k" by simp
    define p where "p = (k - 1) div 2"
    have pk: "p < k" using parent_less[OF k0] by (simp add: p_def)
    have 1: "\<not> l (Data (fh ! p)) (Data (fh ! 0))"
      using less.IH[OF pk] pk less.prems by simp
    have 2: "\<not> l (Data (fh ! k)) (Data (fh ! p))"
      using h k0 less.prems by (simp add: heap_upto_def Less_def p_def)
    show ?thesis using swo_le_trans[OF swo 1 2] .
  qed
qed

lemma heap_Pop_mset:
  assumes "fh \<noteq> []" and "heap_Pop l fh = (e, fh')"
  shows "mset fh = add_mset e (mset fh')" and "length fh' = length fh - 1"
proof -
  define n where "n = length fh - 1"
  define fh2 where "fh2 = down l (Swap fh 0 n) 0 n"
  have nlen: "n < length fh" using assms(1) by (simp add: n_def)
  have len2: "length fh2 = Suc n" using nlen by (simp add: fh2_def n_def)
  have e: "e = fh2 ! n" and f: "fh' = take n fh2"
    using assms(2) len2 by (simp_all add: heap_Pop_def Pop_def Len_def fh2_def n_def)
  have "fh2 = take n fh2 @ [fh2 ! n]"
    using len2 by (metis lessI take_Suc_conv_app_nth take_all order_refl)
  then have "mset fh2 = add_mset e (mset fh')"
    using e f by (metis mset.simps(2) mset_append add_mset_add_single union_mset_add_mset_right mset.simps(1))
  moreover have "mset fh2 = mset fh"
    using nlen assms(1) by (simp add: fh2_def mset_down mset_Swap)
  ultimately show "mset fh = add_mset e (mset fh')" by simp
  show "length fh' = length fh - 1" using f len2 by (simp add: n_def)
qed

lemma heap_Pop_min:
  assumes swo: "strict_weak_order l" and h: "heap_upto l fh (length fh)"
    and ne: "fh \<noteq> []" and pop: "heap_Pop l fh = (e, fh')"
  shows "heap_upto l fh' (length fh')" and "\<forall>x\<in>set fh. \<not> l (Data x) (Data e)"
proof -
  define n where "n = length fh - 1"
  define fh1 where "fh1 = Swap fh 0 n"
  define fh2 where "fh2 = down l fh1 0 n"
  have nlen: "n < length fh" using ne by (simp add: n_def)
  have len1: "length fh1 = Suc n" using nlen by (simp add: fh1_def n_def)
  have len2: "length fh2 = Suc n" using len1 by (simp add: fh2_def)
  have e: "e = fh2 ! n" and f: "fh' = take n fh2"
    using pop len2 by (simp_all add: heap_Pop_def Pop_def Len_def fh2_def fh1_def n_def)
  have "fh2 ! n = fh1 ! n" by (simp add: fh2_def down_outside)
  also have "\<dots> = fh ! 0" using nlen ne by (simp add: fh1_def nth_Swap)
  finally have e0: "e = fh ! 0" using e by simp
  show "\<forall>x\<in>set fh. \<not> l (Data x) (Data e)"
    using heap_root_min[OF swo h] e0 by (auto simp: in_set_conv_nth)
  have "heap_except_down l fh1 0 n"
    unfolding heap_except_down_def
  proof (intro conjI allI impI)
    fix k assume k: "0 < k \<and> k < n \<and> (k - 1) div 2 \<noteq> 0"
    define p where "p = (k - 1) div 2"
    from k have k0: "0 < k" and kn: "k < n" and p0: "p \<noteq> 0" by (simp_all add: p_def)
    have pk: "p < k" using parent_less[OF k0] by (simp add: p_def)
    have "fh1 ! k = fh ! k" "fh1 ! p = fh ! p"
      using k0 kn pk p0 by (simp_all add: fh1_def nth_Swap_outside)
    moreover have "\<not> Less l fh k p"
      using h k0 kn nlen by (simp add: heap_upto_def p_def)
    ultimately show "\<not> Less l fh1 k ((k - 1) div 2)"
      by (simp add: Less_def p_def)
  next
    fix k assume "(0::nat) < 0 \<and> 0 < k \<and> k < n \<and> (k - 1) div 2 = 0"
    then show "\<not> Less l fh1 k ((0 - 1) div 2)" by simp
  qed
  then have "heap_upto l fh2 n"
    unfolding fh2_def by (intro heap_upto_down[OF swo]) (simp_all add: len1)
  then have u: "heap_upto l fh2 n" .
  show "heap_upto l fh' (length fh')"
    unfolding heap_upto_def
  proof (intro allI impI)
    fix k assume k: "0 < k \<and> k < length fh'"
    then have k0: "0 < k" and kn: "k < n" using f len2 by simp_all
    have "(k - 1) div 2 < n" using parent_less[OF k0] kn by simp
    then show "\<not> Less l fh' k ((k - 1) div 2)"
      using u k0 kn f by (simp add: heap_upto_def Less_def)
  qed
qed

subsection \<open>The refill phase on runs of delimited records\<close>

lemma advance_flat: "advance i (concat ys) (flat frs) = flat (set_run i ys frs)"
  by (auto simp: advance_def flat_def set_run_def)

lemma delete_flat: "delete i (flat frs) = flat (del_run i frs)"
  by (induction frs) (auto simp: delete_def flat_def del_run_def)

lemma delete_advance: "delete i (advance i r fs) = delete i fs"
  by (induction fs) (auto simp: delete_def advance_def)

lemma advance_advance: "advance i r (advance i r' fs) = advance i r fs"
  by (induction fs) (auto simp: advance_def)

lemma push_all_Nil [simp]: "push_all l i [] h = h"
  by (simp add: push_all_def)

lemma push_all_Cons: "push_all l i (x # xs) h = push_all l i xs (heap_Push l h (NewEntry i x))"
  by (simp add: push_all_def)

lemma push_all_snoc: "push_all l i (xs @ [x]) h = heap_Push l (push_all l i xs h) (NewEntry i x)"
  by (simp add: push_all_def)

lemma mset_push_all: "mset (push_all l i xs h) = mset (map (NewEntry i) xs) + mset h"
  by (induction xs arbitrary: h) (simp_all add: push_all_Cons mset_heap_Push)

lemma heap_upto_push_all:
  "strict_weak_order l \<Longrightarrow> heap_upto l h (length h) \<Longrightarrow>
     heap_upto l (push_all l i xs h) (length (push_all l i xs h))"
  by (induction xs arbitrary: h) (simp_all add: push_all_Cons heap_upto_heap_Push)

lemma chunk_Nil:
  "eof_at_end c \<Longrightarrow> \<exists>b rest. c (Some []) = Chunked b (Some EOF) rest"
  by (simp add: eof_at_end_def)

lemma chunk_Cons:
  "delimits c x \<Longrightarrow> c (Some (concat (x # xs))) = Chunked x None (concat xs)"
  by (simp add: delimits_def)

lemma fillHeap_file_spec:
  assumes eof: "eof_at_end c"
  shows "\<forall>x\<in>set xs. delimits c x \<Longrightarrow>
    (fillHeap_file c l lim i (Some (concat xs)) rb fs h =
        Some (Return (None, delete i fs, push_all l i xs h)) \<and>
     (xs = [] \<or> rb + int (length (concat xs)) < lim)) \<or>
    (\<exists>k<length xs.
       fillHeap_file c l lim i (Some (concat xs)) rb fs h =
         Some (Return (None, advance i (concat (drop (Suc k) xs)) fs,
                       push_all l i (take (Suc k) xs) h)))"
proof (induction xs arbitrary: rb fs h)
  case Nil
  obtain b rest where "c (Some []) = Chunked b (Some EOF) rest"
    using chunk_Nil[OF eof] by blast
  then have "fillHeap_file c l lim i (Some (concat [])) rb fs h =
               Some (Return (None, delete i fs, push_all l i [] h))"
    by (subst fillHeap_file.simps) (simp add: delete_advance)
  then show ?case by simp
next
  case (Cons x xs)
  have ch: "c (Some (x @ concat xs)) = Chunked x None (concat xs)"
    using chunk_Cons[of c x xs] Cons.prems by simp
  show ?case
  proof (cases "lim \<le> rb + int (length x)")
    case True
    have "fillHeap_file c l lim i (Some (concat (x # xs))) rb fs h =
            Some (Return (None, advance i (concat xs) fs, heap_Push l h (NewEntry i x)))"
      using True by (subst fillHeap_file.simps) (simp add: ch)
    then have "fillHeap_file c l lim i (Some (concat (x # xs))) rb fs h =
         Some (Return (None, advance i (concat (drop (Suc 0) (x # xs))) fs,
                       push_all l i (take (Suc 0) (x # xs)) h))"
      by (simp add: push_all_Cons)
    then show ?thesis by blast
  next
    case False
    have step: "fillHeap_file c l lim i (Some (concat (x # xs))) rb fs h =
            fillHeap_file c l lim i (Some (concat xs)) (rb + int (length x))
              (advance i (concat xs) fs) (heap_Push l h (NewEntry i x))"
      using False by (subst fillHeap_file.simps) (simp add: ch)
    have dl: "\<forall>x\<in>set xs. delimits c x" using Cons.prems by simp
    let ?call = "fillHeap_file c l lim i (Some (concat xs)) (rb + int (length x))
            (advance i (concat xs) fs) (heap_Push l h (NewEntry i x))"
    from Cons.IH[OF dl, of "rb + int (length x)" "advance i (concat xs) fs"
        "heap_Push l h (NewEntry i x)"]
    show ?thesis
    proof
      assume ab: "?call = Some (Return (None, delete i (advance i (concat xs) fs),
                 push_all l i xs (heap_Push l h (NewEntry i x)))) \<and>
           (xs = [] \<or> rb + int (length x) + int (length (concat xs)) < lim)"
      then have "rb + int (length (concat (x # xs))) < lim" using False by auto
      then show ?thesis using ab step by (simp add: delete_advance push_all_Cons)
    next
      assume "\<exists>k<length xs. ?call =
           Some (Return (None, advance i (concat (drop (Suc k) xs)) (advance i (concat xs) fs),
                 push_all l i (take (Suc k) xs) (heap_Push l h (NewEntry i x))))"
      then obtain k where k: "k < length xs" and a: "?call =
           Some (Return (None, advance i (concat (drop (Suc k) xs)) (advance i (concat xs) fs),
                 push_all l i (take (Suc k) xs) (heap_Push l h (NewEntry i x))))"
        by blast
      have "fillHeap_file c l lim i (Some (concat (x # xs))) rb fs h =
         Some (Return (None, advance i (concat (drop (Suc (Suc k)) (x # xs))) fs,
                       push_all l i (take (Suc (Suc k)) (x # xs)) h))"
        using a step by (simp add: advance_advance push_all_Cons)
      moreover have "Suc k < length (x # xs)" using k by simp
      ultimately show ?thesis by blast
    qed
  qed
qed

lemma push_all_entries: "push_all l i xs h = push_entries l (map (NewEntry i) xs) h"
  by (simp add: push_all_def push_entries_def fold_map comp_def)

lemma push_entries_append:
  "push_entries l (zs @ zs') h = push_entries l zs' (push_entries l zs h)"
  by (simp add: push_entries_def)

lemma mset_push_entries: "mset (push_entries l zs h) = mset zs + mset h"
  by (induction zs arbitrary: h) (simp_all add: push_entries_def mset_heap_Push)

lemma set_push_entries: "set (push_entries l zs h) = set zs \<union> set h"
  using mset_push_entries[of l zs h] by (metis set_mset_mset set_mset_union)

lemma heap_upto_push_entries:
  "strict_weak_order l \<Longrightarrow> heap_upto l h (length h) \<Longrightarrow>
     heap_upto l (push_entries l zs h) (length (push_entries l zs h))"
  by (induction zs arbitrary: h) (simp_all add: push_entries_def heap_upto_heap_Push)

lemma staged_mono: "staged R h kx \<Longrightarrow> set h \<subseteq> set h' \<Longrightarrow> staged R h' kx"
  by (auto simp: staged_def)

lemma map_fst_set_run [simp]: "map fst (set_run i ys frs) = map fst frs"
  by (induction frs) (auto simp: set_run_def)

lemma length_flat [simp]: "length (flat frs) = length frs"
  by (simp add: flat_def)

lemma map_of_flat:
  "distinct (map fst frs) \<Longrightarrow> (k, xs) \<in> set frs \<Longrightarrow> map_of (flat frs) k = Some (concat xs)"
proof -
  assume d: "distinct (map fst frs)" and m: "(k, xs) \<in> set frs"
  have "map fst (flat frs) = map fst frs" by (induction frs) (auto simp: flat_def)
  then have "distinct (map fst (flat frs))" using d by simp
  moreover have "(k, concat xs) \<in> set (flat frs)" using m by (force simp: flat_def)
  ultimately show ?thesis by simp
qed

lemma map_of_flat_None: "k \<notin> fst ` set frs \<Longrightarrow> map_of (flat frs) k = None"
  by (induction frs) (auto simp: flat_def)

lemma set_del_run: "set (del_run i frs) = {kx \<in> set frs. fst kx \<noteq> i}"
  by (auto simp: del_run_def)

lemma map_fst_del_run: "map fst (del_run i frs) = filter (\<lambda>k. k \<noteq> i) (map fst frs)"
  by (induction frs) (auto simp: del_run_def)

lemma del_run_absent: "i \<notin> fst ` set frs \<Longrightarrow> del_run i frs = frs"
  by (induction frs) (auto simp: del_run_def)

lemma set_run_absent: "i \<notin> fst ` set frs \<Longrightarrow> set_run i ys frs = frs"
  by (induction frs) (auto simp: set_run_def)

lemma set_set_run:
  assumes "(i, xs) \<in> set frs"
  shows "set (set_run i ys frs) = insert (i, ys) {kx \<in> set frs. fst kx \<noteq> i}"
proof (rule set_eqI)
  fix kx :: "nat \<times> bytes list"
  obtain k zs where kx: "kx = (k, zs)" by (cases kx)
  have "kx \<in> set (set_run i ys frs) \<longleftrightarrow>
          (\<exists>k' xs'. (k', xs') \<in> set frs \<and> kx = (if k' = i then (k', ys) else (k', xs')))"
    unfolding set_run_def by (auto simp: image_iff split: prod.splits)
  also have "\<dots> \<longleftrightarrow> kx = (i, ys) \<or> (kx \<in> set frs \<and> fst kx \<noteq> i)"
  proof
    assume "\<exists>k' xs'. (k', xs') \<in> set frs \<and> kx = (if k' = i then (k', ys) else (k', xs'))"
    then obtain k' xs' where m: "(k', xs') \<in> set frs"
      and e: "kx = (if k' = i then (k', ys) else (k', xs'))" by blast
    show "kx = (i, ys) \<or> (kx \<in> set frs \<and> fst kx \<noteq> i)"
    proof (cases "k' = i")
      case True then show ?thesis using e by simp
    next
      case False then show ?thesis using e m by simp
    qed
  next
    assume "kx = (i, ys) \<or> (kx \<in> set frs \<and> fst kx \<noteq> i)"
    then show "\<exists>k' xs'. (k', xs') \<in> set frs \<and> kx = (if k' = i then (k', ys) else (k', xs'))"
    proof
      assume "kx = (i, ys)"
      then have "(i, xs) \<in> set frs \<and> kx = (if i = i then (i, ys) else (i, xs))"
        using assms by simp
      then show ?thesis by blast
    next
      assume "kx \<in> set frs \<and> fst kx \<noteq> i"
      then have "(k, zs) \<in> set frs \<and> kx = (if k = i then (k, ys) else (k, zs))"
        using kx by simp
      then show ?thesis by blast
    qed
  qed
  finally show "kx \<in> set (set_run i ys frs) \<longleftrightarrow> kx \<in> insert (i, ys) {kx \<in> set frs. fst kx \<noteq> i}"
    by simp
qed

lemma pending_del_run:
  "distinct (map fst frs) \<Longrightarrow> (i, xs) \<in> set frs \<Longrightarrow> pending frs = pending (del_run i frs) + mset xs"
proof (induction frs)
  case Nil
  then show ?case by simp
next
  case (Cons a frs)
  show ?case
  proof (cases "fst a = i")
    case True
    then have a: "a = (i, xs)" using Cons.prems by (cases a) (auto simp: rev_image_eqI)
    have "i \<notin> fst ` set frs" using Cons.prems(1) True by auto
    then have "del_run i frs = frs" by (rule del_run_absent)
    then show ?thesis using a by (simp add: pending_def del_run_def)
  next
    case False
    then have "(i, xs) \<in> set frs" using Cons.prems by auto
    then have "pending frs = pending (del_run i frs) + mset xs"
      using Cons.IH Cons.prems(1) by simp
    then show ?thesis using False by (cases a) (simp add: pending_def del_run_def)
  qed
qed

lemma pending_set_run:
  "distinct (map fst frs) \<Longrightarrow> (i, xs) \<in> set frs \<Longrightarrow>
     pending (set_run i ys frs) = pending (del_run i frs) + mset ys"
proof -
  assume d: "distinct (map fst frs)" and m: "(i, xs) \<in> set frs"
  have "(i, ys) \<in> set (set_run i ys frs)" using set_set_run[OF m] by simp
  moreover have "distinct (map fst (set_run i ys frs))" using d by simp
  ultimately have "pending (set_run i ys frs) = pending (del_run i (set_run i ys frs)) + mset ys"
    by (rule pending_del_run[rotated])
  moreover have "del_run i (set_run i ys frs) = del_run i frs"
    by (induction frs) (auto simp: del_run_def set_run_def)
  ultimately show ?thesis by simp
qed

lemma Data_NewEntry [simp]: "map Data (map (NewEntry i) xs) = xs"
  by (induction xs) (simp_all add: NewEntry_def)

lemma FileIdx_NewEntry [simp]: "FileIdx (NewEntry i x) = i" "Data (NewEntry i x) = x"
  by (simp_all add: NewEntry_def)

lemma sorted_wrt_take_drop:
  assumes "sorted_wrt R xs" "x \<in> set (take k xs)" "y \<in> set (drop k xs)"
  shows "R x y"
proof -
  have "sorted_wrt R (take k xs @ drop k xs)" using assms(1) by simp
  then show ?thesis using assms(2,3) unfolding sorted_wrt_append by blast
qed

lemma keys_upt:
  assumes "map fst frs = [0..<n]"
  shows "length frs = n" and "distinct (map fst frs)"
    and "i < n \<Longrightarrow> (i, snd (frs ! i)) \<in> set frs"
    and "kx \<in> set frs \<Longrightarrow> fst kx < n"
proof -
  show len: "length frs = n" using assms by (metis length_map length_upt minus_nat.diff_0)
  show "distinct (map fst frs)" using assms by simp
  show "(i, snd (frs ! i)) \<in> set frs" if "i < n"
  proof -
    have "fst (frs ! i) = [0..<n] ! i" using assms that len by (metis nth_map)
    then have "fst (frs ! i) = i" using that by simp
    then have "frs ! i = (i, snd (frs ! i))" by (metis prod.collapse)
    then show ?thesis using that len by (metis nth_mem)
  qed
  show "fst kx < n" if "kx \<in> set frs"
  proof -
    have "fst kx \<in> set (map fst frs)" using that by simp
    then show ?thesis unfolding assms by simp
  qed
qed

lemma fillHeap_from_stop:
  "\<not> i < length fs \<Longrightarrow> fillHeap_from c l lim i fs h = Some (Return (None, fs, h))"
  by (subst fillHeap_from.simps) simp

lemma fillHeap_from_step:
  "i < length fs \<Longrightarrow> fillHeap_file c l lim i (map_of fs i) 0 fs h = Some (Return (None, fs', h')) \<Longrightarrow>
     fillHeap_from c l lim i fs h = fillHeap_from c l lim (i + 1) fs' h'"
  by (subst fillHeap_from.simps) simp

lemma fillHeap_from_spec:
  assumes eof: "eof_at_end c"
  shows "n - i = d \<Longrightarrow> map fst frs = [0..<n] \<Longrightarrow> i \<le> n \<Longrightarrow>
     (\<forall>kx\<in>set frs. (\<forall>x\<in>set (snd kx). delimits c x) \<and> sorted_wrt R (snd kx)) \<Longrightarrow>
     (\<forall>kx\<in>set frs. i \<le> fst kx \<and> Suc (fst kx) < n \<longrightarrow>
         snd kx \<noteq> [] \<and> lim \<le> int (length (concat (snd kx)))) \<Longrightarrow>
     (\<forall>kx\<in>set frs. fst kx < i \<longrightarrow> staged R h kx) \<Longrightarrow>
     \<exists>frs' zs. fillHeap_from c l lim i (flat frs) h =
                 Some (Return (None, flat frs', push_entries l zs h)) \<and>
        distinct (map fst frs') \<and>
        (\<forall>kx'\<in>set frs'. \<exists>xs m. (fst kx', xs) \<in> set frs \<and> snd kx' = drop m xs) \<and>
        mset (map Data zs) + pending frs' = pending frs \<and>
        (\<forall>kx'\<in>set frs'. staged R (push_entries l zs h) kx')"
proof (induction d arbitrary: i frs h)
  case 0
  then have "i = n" by simp
  then have "\<not> i < length (flat frs)" using keys_upt(1)[OF "0.prems"(2)] by simp
  then have 1: "fillHeap_from c l lim i (flat frs) h = Some (Return (None, flat frs, push_entries l [] h))"
    by (simp add: fillHeap_from_stop push_entries_def)
  have 2: "\<forall>kx'\<in>set frs. \<exists>xs m. (fst kx', xs) \<in> set frs \<and> snd kx' = drop m xs"
  proof
    fix kx' assume "kx' \<in> set frs"
    then have "(fst kx', snd kx') \<in> set frs \<and> snd kx' = drop 0 (snd kx')" by simp
    then show "\<exists>xs m. (fst kx', xs) \<in> set frs \<and> snd kx' = drop m xs" by blast
  qed
  have 3: "\<forall>kx'\<in>set frs. staged R (push_entries l [] h) kx'"
    using "0.prems"(6) keys_upt(4)[OF "0.prems"(2)] \<open>i = n\<close> by (simp add: push_entries_def)
  show ?case
    apply (rule exI[of _ frs])
    apply (rule exI[of _ "[]"])
    using 1 2 3 keys_upt(2)[OF "0.prems"(2)] by simp
next
  case (Suc d)
  note keys = Suc.prems(2)
  have i: "i < n" using Suc.prems(1) by simp
  define xi where "xi = snd (frs ! i)"
  have mem: "(i, xi) \<in> set frs" using keys_upt(3)[OF keys i] by (simp add: xi_def)
  have dist: "distinct (map fst frs)" using keys_upt(2)[OF keys] .
  have len: "length frs = n" using keys_upt(1)[OF keys] .
  have dl: "\<forall>x\<in>set xi. delimits c x" and so: "sorted_wrt R xi"
    using Suc.prems(4) mem by force+
  have mo: "map_of (flat frs) i = Some (concat xi)" using map_of_flat[OF dist mem] .
  have ilen: "i < length (flat frs)" using i len by simp
  from fillHeap_file_spec[OF eof dl, of l lim i 0 "flat frs" h]
  show ?case
  proof
    assume A: "fillHeap_file c l lim i (Some (concat xi)) 0 (flat frs) h =
        Some (Return (None, delete i (flat frs), push_all l i xi h)) \<and>
        (xi = [] \<or> 0 + int (length (concat xi)) < lim)"
    have last: "\<not> Suc i < n"
    proof
      assume "Suc i < n"
      then have "xi \<noteq> [] \<and> lim \<le> int (length (concat xi))"
        using Suc.prems(5) mem by force
      then show False using A by auto
    qed
    define frs' where "frs' = del_run i frs"
    define zs where "zs = map (NewEntry i) xi"
    have "length frs' \<le> n" using len length_filter_le[of "\<lambda>(k, xs). k \<noteq> i" frs]
      by (simp add: frs'_def del_run_def)
    then have stop: "\<not> i + 1 < length (flat frs')" using last by simp
    have "fillHeap_from c l lim i (flat frs) h =
            fillHeap_from c l lim (i + 1) (flat frs') (push_entries l zs h)"
      using fillHeap_from_step[OF ilen, where fs' = "flat frs'" and h' = "push_entries l zs h"
          and c = c and l = l and lim = lim and h = h] A mo
      by (simp add: delete_flat frs'_def zs_def push_all_entries)
    then have 1: "fillHeap_from c l lim i (flat frs) h =
            Some (Return (None, flat frs', push_entries l zs h))"
      using fillHeap_from_stop[OF stop] by simp
    have 2: "distinct (map fst frs')"
      using dist by (simp add: frs'_def map_fst_del_run)
    have 3: "\<forall>kx'\<in>set frs'. \<exists>xs m. (fst kx', xs) \<in> set frs \<and> snd kx' = drop m xs"
    proof
      fix kx' assume "kx' \<in> set frs'"
      then have "(fst kx', snd kx') \<in> set frs \<and> snd kx' = drop 0 (snd kx')"
        by (simp add: frs'_def set_del_run)
      then show "\<exists>xs m. (fst kx', xs) \<in> set frs \<and> snd kx' = drop m xs" by blast
    qed
    have dz: "map Data zs = xi" unfolding zs_def by (rule Data_NewEntry)
    have 4: "mset (map Data zs) + pending frs' = pending frs"
      using pending_del_run[OF dist mem] by (simp add: dz frs'_def)
    have 5: "\<forall>kx'\<in>set frs'. staged R (push_entries l zs h) kx'"
    proof
      fix kx' assume m: "kx' \<in> set frs'"
      then have "kx' \<in> set frs" and "fst kx' \<noteq> i" by (simp_all add: frs'_def set_del_run)
      moreover have "fst kx' < n" using keys_upt(4)[OF keys \<open>kx' \<in> set frs\<close>] .
      ultimately have "fst kx' < i" using last by simp
      then have "staged R h kx'" using Suc.prems(6) \<open>kx' \<in> set frs\<close> by simp
      then show "staged R (push_entries l zs h) kx'"
        by (rule staged_mono) (simp add: set_push_entries)
    qed
    show ?thesis
      apply (rule exI[of _ frs'])
      apply (rule exI[of _ zs])
      using 1 2 3 4 5 by simp
  next
    assume "\<exists>k<length xi. fillHeap_file c l lim i (Some (concat xi)) 0 (flat frs) h =
         Some (Return (None, advance i (concat (drop (Suc k) xi)) (flat frs),
                       push_all l i (take (Suc k) xi) h))"
    then obtain k where k: "k < length xi"
      and B: "fillHeap_file c l lim i (Some (concat xi)) 0 (flat frs) h =
         Some (Return (None, advance i (concat (drop (Suc k) xi)) (flat frs),
                       push_all l i (take (Suc k) xi) h))" by blast
    define frs1 where "frs1 = set_run i (drop (Suc k) xi) frs"
    define zs1 where "zs1 = map (NewEntry i) (take (Suc k) xi)"
    define h1 where "h1 = push_entries l zs1 h"
    have step: "fillHeap_from c l lim i (flat frs) h = fillHeap_from c l lim (i + 1) (flat frs1) h1"
      using fillHeap_from_step[OF ilen, where fs' = "flat frs1" and h' = h1
          and c = c and l = l and lim = lim and h = h] B mo
      by (simp add: advance_flat frs1_def zs1_def h1_def push_all_entries)
    have set1: "set frs1 = insert (i, drop (Suc k) xi) {kx \<in> set frs. fst kx \<noteq> i}"
      using set_set_run[OF mem] by (simp add: frs1_def)
    have keys1: "map fst frs1 = [0..<n]" using keys by (simp add: frs1_def)
    have p4: "\<forall>kx\<in>set frs1. (\<forall>x\<in>set (snd kx). delimits c x) \<and> sorted_wrt R (snd kx)"
    proof
      fix kx assume "kx \<in> set frs1"
      then consider "kx = (i, drop (Suc k) xi)" | "kx \<in> set frs" using set1 by auto
      then show "(\<forall>x\<in>set (snd kx). delimits c x) \<and> sorted_wrt R (snd kx)"
      proof cases
        case 1
        have "\<forall>x\<in>set (drop (Suc k) xi). delimits c x" using dl in_set_dropD by fast
        then show ?thesis using 1 so by (simp add: sorted_wrt_drop)
      next
        case 2 then show ?thesis using Suc.prems(4) by simp
      qed
    qed
    have p5: "\<forall>kx\<in>set frs1. i + 1 \<le> fst kx \<and> Suc (fst kx) < n \<longrightarrow>
         snd kx \<noteq> [] \<and> lim \<le> int (length (concat (snd kx)))"
    proof (intro ballI impI)
      fix kx assume "kx \<in> set frs1" and a: "i + 1 \<le> fst kx \<and> Suc (fst kx) < n"
      then have "kx \<in> set frs" using set1 by auto
      then show "snd kx \<noteq> [] \<and> lim \<le> int (length (concat (snd kx)))"
        using Suc.prems(5) a by simp
    qed
    have sub: "set h \<subseteq> set h1" by (simp add: h1_def set_push_entries)
    have p6: "\<forall>kx\<in>set frs1. fst kx < i + 1 \<longrightarrow> staged R h1 kx"
    proof (intro ballI impI)
      fix kx assume "kx \<in> set frs1" and a: "fst kx < i + 1"
      then consider "kx = (i, drop (Suc k) xi)" | "kx \<in> set frs" "fst kx \<noteq> i" using set1 by auto
      then show "staged R h1 kx"
      proof cases
        case 1
        have xk: "xi ! k \<in> set (take (Suc k) xi)"
          using k by (metis in_set_conv_nth length_take lessI min_less_iff_conj nth_take)
        then have "NewEntry i (xi ! k) \<in> set h1"
          by (simp add: h1_def zs1_def set_push_entries)
        moreover have "\<forall>y\<in>set (drop (Suc k) xi). R (xi ! k) y"
          using sorted_wrt_take_drop[OF so xk] by blast
        ultimately show ?thesis unfolding staged_def 1
          by (intro bexI[of _ "NewEntry i (xi ! k)"]) simp_all
      next
        case 2
        then have "fst kx < i" using a by simp
        then have "staged R h kx" using Suc.prems(6) 2 by simp
        then show ?thesis using sub by (rule staged_mono)
      qed
    qed
    have d1: "n - (i + 1) = d" using Suc.prems(1) by simp
    have i1: "i + 1 \<le> n" using i by simp
    from Suc.IH[OF d1 keys1 i1 p4 p5 p6]
    obtain frs' zs' where
      r1: "fillHeap_from c l lim (i + 1) (flat frs1) h1 =
             Some (Return (None, flat frs', push_entries l zs' h1))"
      and r2: "distinct (map fst frs')"
      and r3: "\<forall>kx'\<in>set frs'. \<exists>xs m. (fst kx', xs) \<in> set frs1 \<and> snd kx' = drop m xs"
      and r4: "mset (map Data zs') + pending frs' = pending frs1"
      and r5: "\<forall>kx'\<in>set frs'. staged R (push_entries l zs' h1) kx'"
      by blast
    have pe: "push_entries l zs' h1 = push_entries l (zs1 @ zs') h"
      by (simp add: h1_def push_entries_append)
    have 3: "\<forall>kx'\<in>set frs'. \<exists>xs m. (fst kx', xs) \<in> set frs \<and> snd kx' = drop m xs"
    proof
      fix kx' assume "kx' \<in> set frs'"
      then obtain xs m where a: "(fst kx', xs) \<in> set frs1" and b: "snd kx' = drop m xs"
        using r3 by blast
      from a consider "fst kx' = i" "xs = drop (Suc k) xi" | "(fst kx', xs) \<in> set frs"
        using set1 by auto
      then show "\<exists>xs m. (fst kx', xs) \<in> set frs \<and> snd kx' = drop m xs"
      proof cases
        case 1
        then have "(fst kx', xi) \<in> set frs \<and> snd kx' = drop (m + Suc k) xi"
          using mem b by (simp add: add.commute)
        then show ?thesis by blast
      next
        case 2 then show ?thesis using b by blast
      qed
    qed
    have "pending frs1 = pending (del_run i frs) + mset (drop (Suc k) xi)"
      using pending_set_run[OF dist mem] by (simp add: frs1_def)
    moreover have "pending frs = pending (del_run i frs) + mset xi"
      using pending_del_run[OF dist mem] .
    moreover have "mset xi = mset (take (Suc k) xi) + mset (drop (Suc k) xi)"
      by (metis append_take_drop_id mset_append)
    moreover have "map Data zs1 = take (Suc k) xi" unfolding zs1_def by (rule Data_NewEntry)
    ultimately have 4: "mset (map Data (zs1 @ zs')) + pending frs' = pending frs"
      using r4 by (simp del: take_Suc drop_Suc)
    show ?thesis
      apply (rule exI[of _ frs'])
      apply (rule exI[of _ "zs1 @ zs'"])
      using step r1 r2 3 4 r5 pe by simp
  qed
qed

subsection \<open>The drain phase\<close>

lemma in_pending: "y \<in># pending frs \<longleftrightarrow> (\<exists>kx\<in>set frs. y \<in> set (snd kx))"
  by (auto simp: pending_def)

lemma map_of_flat_Some:
  "map_of (flat frs) i = Some rd \<Longrightarrow> \<exists>xs. (i, xs) \<in> set frs \<and> rd = concat xs"
proof -
  assume "map_of (flat frs) i = Some rd"
  then have "(i, rd) \<in> set (flat frs)" by (rule map_of_SomeD)
  then show ?thesis by (auto simp: flat_def)
qed

lemma map_of_flat_NoneD: "map_of (flat frs) i = None \<Longrightarrow> i \<notin> fst ` set frs"
proof -
  assume "map_of (flat frs) i = None"
  then have "i \<notin> fst ` set (flat frs)" by (simp add: map_of_eq_None_iff)
  moreover have "fst ` set (flat frs) = fst ` set frs" by (force simp: flat_def)
  ultimately show ?thesis by simp
qed

lemma sort_loop_pop:
  assumes "h \<noteq> []" and "heap_Pop l h = (e, h2)" and "\<forall>k. w k = None"
  shows "sort_loop w c l lim fs h outp =
     (case map_of fs (FileIdx e) of
        None \<Rightarrow> sort_loop w c l lim fs h2 (outp @ [Data e])
      | Some rd \<Rightarrow>
          (case c (Some rd) of
             ChunkPanic p \<Rightarrow> Some (Panic p, outp @ [Data e])
           | Chunked b err rest \<Rightarrow>
               if err = Some EOF then
                 sort_loop w c l lim (delete (FileIdx e) (advance (FileIdx e) rest fs)) h2
                   (outp @ [Data e])
               else if err \<noteq> None then
                 Some (Return (map_option (Errorf ''error replacing entry on heap: %s\<newline>'') err),
                       outp @ [Data e])
               else
                 sort_loop w c l lim (advance (FileIdx e) rest fs)
                   (heap_Push l h2 (NewEntry (FileIdx e) b)) (outp @ [Data e])))"
  using assms by (subst sort_loop.simps) (simp add: Len_def)

lemma staged_after_pop:
  assumes st: "staged R h kx" and ne: "fst kx \<noteq> FileIdx e"
    and ms: "mset h = add_mset e (mset h2)" and sub: "set h2 \<subseteq> set h'"
  shows "staged R h' kx"
proof -
  obtain e' where e': "e' \<in> set h" "FileIdx e' = fst kx" "\<forall>x\<in>set (snd kx). R (Data e') x"
    using st by (auto simp: staged_def)
  have "e' \<noteq> e" using e'(2) ne by auto
  moreover have "e' \<in># add_mset e (mset h2)" using e'(1) ms by (metis set_mset_mset)
  ultimately have "e' \<in> set h2" by simp
  then show ?thesis using e' sub by (auto simp: staged_def)
qed

lemma pop_below_all:
  assumes swo: "strict_weak_order l" and hp: "heap_upto l h (length h)"
    and ne: "h \<noteq> []" and pop: "heap_Pop l h = (e, h2)"
    and Rle: "\<forall>a b. R a b \<longrightarrow> \<not> l b a"
    and st: "\<forall>kx\<in>set frs. staged R h kx"
  shows "\<forall>y. y \<in># mset (map Data h) + pending frs \<longrightarrow> \<not> l y (Data e)"
proof (intro allI impI)
  fix y assume "y \<in># mset (map Data h) + pending frs"
  then consider "y \<in> Data ` set h" | "y \<in># pending frs" by auto
  then show "\<not> l y (Data e)"
  proof cases
    case 1
    then show ?thesis using heap_Pop_min(2)[OF swo hp ne pop] by auto
  next
    case 2
    then obtain kx where kx: "kx \<in> set frs" "y \<in> set (snd kx)" by (auto simp: in_pending)
    then obtain e' where e': "e' \<in> set h" "R (Data e') y"
      using st by (auto simp: staged_def)
    have a: "\<not> l (Data e') (Data e)" using heap_Pop_min(2)[OF swo hp ne pop] e'(1) by simp
    have b: "\<not> l y (Data e')" using Rle e'(2) by simp
    show ?thesis using swo_le_trans[OF swo a b] .
  qed
qed

lemma drain_invI:
  assumes "distinct (map fst frs)"
    and "\<And>kx. kx \<in> set frs \<Longrightarrow> \<forall>x\<in>set (snd kx). delimits c x"
    and "\<And>kx. kx \<in> set frs \<Longrightarrow> sorted_wrt R (snd kx)"
    and "\<And>kx. kx \<in> set frs \<Longrightarrow> staged R h kx"
  shows "drain_inv c R frs h"
  using assms by (simp add: drain_inv_def)

lemma drain_invD:
  assumes "drain_inv c R frs h"
  shows "distinct (map fst frs)"
    and "kx \<in> set frs \<Longrightarrow> \<forall>x\<in>set (snd kx). delimits c x"
    and "kx \<in> set frs \<Longrightarrow> sorted_wrt R (snd kx)"
    and "kx \<in> set frs \<Longrightarrow> staged R h kx"
  using assms by (simp_all add: drain_inv_def)

lemma drain_step:
  assumes eof: "eof_at_end c" and w: "\<forall>k. w k = None"
    and inv: "drain_inv c R frs h" and ne: "h \<noteq> []" and pop: "heap_Pop l h = (e, h2)"
  shows "\<exists>frs' h'.
     sort_loop w c l lim (flat frs) h outp = sort_loop w c l lim (flat frs') h' (outp @ [Data e]) \<and>
     drain_inv c R frs' h' \<and>
     add_mset (Data e) (mset (map Data h') + pending frs') = mset (map Data h) + pending frs \<and>
     (strict_weak_order l \<and> heap_upto l h (length h) \<longrightarrow> heap_upto l h' (length h'))"
proof -
  have ms: "mset h = add_mset e (mset h2)" using heap_Pop_mset(1)[OF ne pop] .
  then have msD: "mset (map Data h) = add_mset (Data e) (mset (map Data h2))"
    by (metis image_mset_add_mset mset_map)
  have dist: "distinct (map fst frs)" using inv by (simp add: drain_inv_def)
  have hp2: "strict_weak_order l \<and> heap_upto l h (length h) \<longrightarrow> heap_upto l h2 (length h2)"
    using heap_Pop_min(1)[OF _ _ ne pop] by blast
  note step = sort_loop_pop[OF ne pop w, of c lim "flat frs" outp]
  show ?thesis
  proof (cases "map_of (flat frs) (FileIdx e)")
    case None
    have absent: "FileIdx e \<notin> fst ` set frs" using map_of_flat_NoneD[OF None] .
    have "drain_inv c R frs h2"
    proof (rule drain_invI)
      show "distinct (map fst frs)" using dist .
    next
      fix kx assume kx: "kx \<in> set frs"
      then show "\<forall>x\<in>set (snd kx). delimits c x" using drain_invD(2)[OF inv] by simp
    next
      fix kx assume kx: "kx \<in> set frs"
      then show "sorted_wrt R (snd kx)" using drain_invD(3)[OF inv] by simp
    next
      fix kx assume kx: "kx \<in> set frs"
      have "staged R h kx" using drain_invD(4)[OF inv kx] .
      moreover have "fst kx \<noteq> FileIdx e" using absent kx by (metis imageI)
      ultimately show "staged R h2 kx" using staged_after_pop[OF _ _ ms] by blast
    qed
    moreover have "sort_loop w c l lim (flat frs) h outp =
                   sort_loop w c l lim (flat frs) h2 (outp @ [Data e])"
      using step None by simp
    ultimately show ?thesis
      apply (intro exI[of _ frs] exI[of _ h2])
      using msD hp2 by simp
  next
    case (Some rd)
    then obtain xs where mem: "(FileIdx e, xs) \<in> set frs" and rd: "rd = concat xs"
      using map_of_flat_Some by blast
    have dl: "\<forall>x\<in>set xs. delimits c x" and so: "sorted_wrt R xs"
      using drain_invD(2,3)[OF inv mem] by simp_all
    show ?thesis
    proof (cases xs)
      case Nil
      obtain b rest where ch: "c (Some []) = Chunked b (Some EOF) rest"
        using chunk_Nil[OF eof] by blast
      define frs' where "frs' = del_run (FileIdx e) frs"
      have eq: "sort_loop w c l lim (flat frs) h outp =
                sort_loop w c l lim (flat frs') h2 (outp @ [Data e])"
        using step Some rd Nil ch by (simp add: delete_advance delete_flat frs'_def)
      have "drain_inv c R frs' h2"
      proof (rule drain_invI)
        show "distinct (map fst frs')" using dist by (simp add: frs'_def map_fst_del_run)
      next
        fix kx assume "kx \<in> set frs'"
        then have kx: "kx \<in> set frs" by (simp add: frs'_def set_del_run)
        then show "\<forall>x\<in>set (snd kx). delimits c x" using drain_invD(2)[OF inv] by simp
      next
        fix kx assume "kx \<in> set frs'"
        then have kx: "kx \<in> set frs" by (simp add: frs'_def set_del_run)
        then show "sorted_wrt R (snd kx)" using drain_invD(3)[OF inv] by simp
      next
        fix kx assume "kx \<in> set frs'"
        then have kx: "kx \<in> set frs" and n: "fst kx \<noteq> FileIdx e"
          by (simp_all add: frs'_def set_del_run)
        have "staged R h kx" using drain_invD(4)[OF inv kx] .
        then show "staged R h2 kx" using staged_after_pop[OF _ n ms] by blast
      qed
      moreover have "pending frs = pending frs'"
        using pending_del_run[OF dist mem] Nil by (simp add: frs'_def)
      ultimately show ?thesis
        apply (intro exI[of _ frs'] exI[of _ h2])
        using eq msD hp2 by simp
    next
      case (Cons x xs')
      have ch: "c (Some (x @ concat xs')) = Chunked x None (concat xs')"
        using chunk_Cons[of c x xs'] dl Cons by simp
      define frs' where "frs' = set_run (FileIdx e) xs' frs"
      define h' where "h' = heap_Push l h2 (NewEntry (FileIdx e) x)"
      have eq: "sort_loop w c l lim (flat frs) h outp =
                sort_loop w c l lim (flat frs') h' (outp @ [Data e])"
        using step Some rd Cons ch by (simp add: advance_flat frs'_def h'_def)
      have set': "set frs' = insert (FileIdx e, xs') {kx \<in> set frs. fst kx \<noteq> FileIdx e}"
        using set_set_run[OF mem] by (simp add: frs'_def)
      have sub: "set h2 \<subseteq> set h'"
        using mset_heap_Push[of l h2 "NewEntry (FileIdx e) x"]
        by (metis h'_def set_mset_mset set_mset_add_mset_insert subset_insertI)
      have new: "NewEntry (FileIdx e) x \<in> set h'"
        using mset_heap_Push[of l h2 "NewEntry (FileIdx e) x"]
        by (metis h'_def set_mset_mset union_single_eq_member add_mset_add_single)
      have "drain_inv c R frs' h'"
      proof (rule drain_invI)
        show "distinct (map fst frs')" using dist by (simp add: frs'_def)
      next
        fix kx assume "kx \<in> set frs'"
        then consider "kx = (FileIdx e, xs')" | "kx \<in> set frs" "fst kx \<noteq> FileIdx e"
          using set' by auto
        then show "\<forall>x\<in>set (snd kx). delimits c x"
          using dl Cons drain_invD(2)[OF inv] by cases simp_all
      next
        fix kx assume "kx \<in> set frs'"
        then consider "kx = (FileIdx e, xs')" | "kx \<in> set frs" "fst kx \<noteq> FileIdx e"
          using set' by auto
        then show "sorted_wrt R (snd kx)"
          using so Cons drain_invD(3)[OF inv] by cases simp_all
      next
        fix kx assume "kx \<in> set frs'"
        then consider "kx = (FileIdx e, xs')" | "kx \<in> set frs" "fst kx \<noteq> FileIdx e"
          using set' by auto
        then show "staged R h' kx"
        proof cases
          case 1
          have "\<forall>y\<in>set xs'. R x y" using so Cons by simp
          then show ?thesis unfolding staged_def 1
            by (intro bexI[of _ "NewEntry (FileIdx e) x"]) (simp_all add: new)
        next
          case 2
          have "staged R h kx" using drain_invD(4)[OF inv 2(1)] .
          then show ?thesis using staged_after_pop[OF _ 2(2) ms sub] by blast
        qed
      qed
      moreover have "pending frs = add_mset x (pending frs')"
        using pending_del_run[OF dist mem] pending_set_run[OF dist mem, of xs'] Cons
        by (simp add: frs'_def)
      moreover have "mset (map Data h') = add_mset x (mset (map Data h2))"
        using mset_heap_Push[of l h2 "NewEntry (FileIdx e) x"]
        by (metis h'_def image_mset_add_mset mset_map FileIdx_NewEntry(2))
      moreover have "strict_weak_order l \<and> heap_upto l h (length h) \<longrightarrow> heap_upto l h' (length h')"
        using hp2 heap_upto_heap_Push by (simp add: h'_def)
      ultimately show ?thesis
        apply (intro exI[of _ frs'] exI[of _ h'])
        using eq msD by simp
    qed
  qed
qed

lemma sort_loop_drain:
  assumes eof: "eof_at_end c" and w: "\<forall>k. w k = None"
  shows "length h + size (pending frs) = N \<Longrightarrow> drain_inv c R frs h \<Longrightarrow>
     \<exists>ys. sort_loop w c l lim (flat frs) h outp = Some (Return None, outp @ ys) \<and>
          mset ys = mset (map Data h) + pending frs \<and>
          (strict_weak_order l \<and> heap_upto l h (length h) \<and> (\<forall>a b. R a b \<longrightarrow> \<not> l b a) \<longrightarrow>
             sorted_wrt (\<lambda>a b. \<not> l b a) ys)"
proof (induction N arbitrary: frs h outp rule: less_induct)
  case (less N)
  note inv = less.prems(2)
  show ?case
  proof (cases "h = []")
    case True
    have "frs = []"
    proof (rule ccontr)
      assume "frs \<noteq> []"
      then obtain kx where "kx \<in> set frs" by (cases frs) auto
      then have "staged R h kx" using drain_invD(4)[OF inv] by simp
      then show False using True by (simp add: staged_def)
    qed
    then have "sort_loop w c l lim (flat frs) h outp = Some (Return None, outp @ [])"
      using True by (simp add: flat_def sort_loop_no_files)
    moreover have "mset [] = mset (map Data h) + pending frs"
      using True \<open>frs = []\<close> by (simp add: pending_def)
    ultimately show ?thesis by (intro exI[of _ "[]"]) simp
  next
    case False
    obtain e h2 where pop: "heap_Pop l h = (e, h2)" by (cases "heap_Pop l h")
    from drain_step[OF eof w inv False pop, of lim outp]
    obtain frs' h' where
      eq: "sort_loop w c l lim (flat frs) h outp = sort_loop w c l lim (flat frs') h' (outp @ [Data e])"
      and inv': "drain_inv c R frs' h'"
      and ms: "add_mset (Data e) (mset (map Data h') + pending frs') = mset (map Data h) + pending frs"
      and hp: "strict_weak_order l \<and> heap_upto l h (length h) \<longrightarrow> heap_upto l h' (length h')"
      by blast
    have "size (add_mset (Data e) (mset (map Data h') + pending frs')) =
          size (mset (map Data h) + pending frs)"
      using ms by simp
    then have "Suc (length h' + size (pending frs')) = length h + size (pending frs)"
      by simp
    then have lt: "length h' + size (pending frs') < N" using less.prems(1) by simp
    from less.IH[OF lt refl inv', of "outp @ [Data e]"]
    obtain ys' where
      r: "sort_loop w c l lim (flat frs') h' (outp @ [Data e]) = Some (Return None, (outp @ [Data e]) @ ys')"
      and m: "mset ys' = mset (map Data h') + pending frs'"
      and s: "strict_weak_order l \<and> heap_upto l h' (length h') \<and> (\<forall>a b. R a b \<longrightarrow> \<not> l b a) \<longrightarrow>
             sorted_wrt (\<lambda>a b. \<not> l b a) ys'"
      by blast
    have 1: "sort_loop w c l lim (flat frs) h outp = Some (Return None, outp @ (Data e # ys'))"
      using eq r by simp
    have 2: "mset (Data e # ys') = mset (map Data h) + pending frs"
      using m ms by simp
    have 3: "strict_weak_order l \<and> heap_upto l h (length h) \<and> (\<forall>a b. R a b \<longrightarrow> \<not> l b a) \<longrightarrow>
             sorted_wrt (\<lambda>a b. \<not> l b a) (Data e # ys')"
    proof
      assume a: "strict_weak_order l \<and> heap_upto l h (length h) \<and> (\<forall>a b. R a b \<longrightarrow> \<not> l b a)"
      then have so: "sorted_wrt (\<lambda>a b. \<not> l b a) ys'" using s hp by blast
      have st: "\<forall>kx\<in>set frs. staged R h kx" using drain_invD(4)[OF inv] by simp
      have below: "\<forall>y. y \<in># mset (map Data h) + pending frs \<longrightarrow> \<not> l y (Data e)"
        using pop_below_all[OF _ _ False pop _ st] a by blast
      have "\<forall>y\<in>set ys'. \<not> l y (Data e)"
      proof
        fix y assume "y \<in> set ys'"
        then have "y \<in># mset ys'" by simp
        then have "y \<in># add_mset (Data e) (mset (map Data h') + pending frs')"
          using m by simp
        then have "y \<in># mset (map Data h) + pending frs" unfolding ms .
        then show "\<not> l y (Data e)" using below by blast
      qed
      then show "sorted_wrt (\<lambda>a b. \<not> l b a) (Data e # ys')" using so by simp
    qed
    show ?thesis using 1 2 3 by (intro exI[of _ "Data e # ys'"]) blast
  qed
qed

lemma sort_loop_after_fill:
  assumes "fillHeap c l lim fs [] = Some (Return (None, fs1, h1))" and "h1 \<noteq> []"
  shows "sort_loop w c l lim fs [] outp = sort_loop w c l lim fs1 h1 outp"
proof -
  have "sort_loop w c l lim fs [] outp =
     (case heap_Pop l h1 of
        (heapEntry, fileHeap2) \<Rightarrow>
          (case w (length outp) of
             Some e \<Rightarrow>
               Some (Return (Some (Errorf
                       ''cannot write heap entry data to result output: %s\<newline>'' e)), outp)
           | None \<Rightarrow>
               (case map_of fs1 (FileIdx heapEntry) of
                  None \<Rightarrow> sort_loop w c l lim fs1 fileHeap2 (outp @ [Data heapEntry])
                | Some rd \<Rightarrow>
                    (case c (Some rd) of
                       ChunkPanic p \<Rightarrow> Some (Panic p, outp @ [Data heapEntry])
                     | Chunked b err rest \<Rightarrow>
                         if err = Some EOF then
                           sort_loop w c l lim
                             (delete (FileIdx heapEntry) (advance (FileIdx heapEntry) rest fs1))
                             fileHeap2 (outp @ [Data heapEntry])
                         else if err \<noteq> None then
                           Some (Return (map_option
                                   (Errorf ''error replacing entry on heap: %s\<newline>'') err),
                                 outp @ [Data heapEntry])
                         else
                           sort_loop w c l lim (advance (FileIdx heapEntry) rest fs1)
                             (heap_Push l fileHeap2 (NewEntry (FileIdx heapEntry) b))
                             (outp @ [Data heapEntry])))))"
    using assms by (subst sort_loop.simps) (simp add: Len_def)
  also have "\<dots> = sort_loop w c l lim fs1 h1 outp"
    using assms(2) by (subst (4) sort_loop.simps) (simp add: Len_def)
  finally show ?thesis .
qed

subsection \<open>The whole merge\<close>

lemma heap_upto_Nil: "heap_upto l [] (length [])"
  by (simp add: heap_upto_def)

lemma sort_loop_merge:
  assumes eof: "eof_at_end c" and w: "\<forall>k. w k = None"
    and keys: "map fst frs = [0..<n]"
    and runs: "\<forall>kx\<in>set frs. (\<forall>x\<in>set (snd kx). delimits c x) \<and> sorted_wrt R (snd kx)"
    and budget: "\<forall>kx\<in>set frs. Suc (fst kx) < n \<longrightarrow>
                   snd kx \<noteq> [] \<and> lim \<le> int (length (concat (snd kx)))"
  shows "\<exists>ys. sort_loop w c l lim (flat frs) [] outp = Some (Return None, outp @ ys) \<and>
          mset ys = pending frs \<and>
          (strict_weak_order l \<and> (\<forall>a b. R a b \<longrightarrow> \<not> l b a) \<longrightarrow>
             sorted_wrt (\<lambda>a b. \<not> l b a) ys)"
proof -
  have b: "\<forall>kx\<in>set frs. 0 \<le> fst kx \<and> Suc (fst kx) < n \<longrightarrow>
         snd kx \<noteq> [] \<and> lim \<le> int (length (concat (snd kx)))"
    using budget by simp
  have s0: "\<forall>kx\<in>set frs. fst kx < 0 \<longrightarrow> staged R [] kx" by simp
  from fillHeap_from_spec[OF eof _ keys _ runs b s0, of n l]
  obtain frs' zs where
    f: "fillHeap_from c l lim 0 (flat frs) [] = Some (Return (None, flat frs', push_entries l zs []))"
    and d: "distinct (map fst frs')"
    and sub: "\<forall>kx'\<in>set frs'. \<exists>xs m. (fst kx', xs) \<in> set frs \<and> snd kx' = drop m xs"
    and ms: "mset (map Data zs) + pending frs' = pending frs"
    and st: "\<forall>kx'\<in>set frs'. staged R (push_entries l zs []) kx'"
    by auto
  define h1 where "h1 = push_entries l zs []"
  have fill: "fillHeap c l lim (flat frs) [] = Some (Return (None, flat frs', h1))"
    using f by (simp add: fillHeap_def h1_def)
  have inv: "drain_inv c R frs' h1"
  proof (rule drain_invI)
    show "distinct (map fst frs')" using d .
  next
    fix kx assume "kx \<in> set frs'"
    then obtain xs m where x: "(fst kx, xs) \<in> set frs" "snd kx = drop m xs" using sub by blast
    have "\<forall>x\<in>set xs. delimits c x" using runs x(1) by force
    then show "\<forall>x\<in>set (snd kx). delimits c x" unfolding x(2) using in_set_dropD by fast
  next
    fix kx assume "kx \<in> set frs'"
    then obtain xs m where x: "(fst kx, xs) \<in> set frs" "snd kx = drop m xs" using sub by blast
    have "sorted_wrt R xs" using runs x(1) by force
    then show "sorted_wrt R (snd kx)" unfolding x(2) by (rule sorted_wrt_drop)
  next
    fix kx assume "kx \<in> set frs'"
    then show "staged R h1 kx" using st by (simp add: h1_def)
  qed
  have mh: "mset (map Data h1) = mset (map Data zs)"
    using mset_push_entries[of l zs "[]"] by (metis h1_def add.right_neutral mset.simps(1) mset_map)
  from sort_loop_drain[OF eof w refl inv, of l lim outp]
  obtain ys where
    r: "sort_loop w c l lim (flat frs') h1 outp = Some (Return None, outp @ ys)"
    and m: "mset ys = mset (map Data h1) + pending frs'"
    and s: "strict_weak_order l \<and> heap_upto l h1 (length h1) \<and> (\<forall>a b. R a b \<longrightarrow> \<not> l b a) \<longrightarrow>
             sorted_wrt (\<lambda>a b. \<not> l b a) ys"
    by blast
  have 1: "sort_loop w c l lim (flat frs) [] outp = Some (Return None, outp @ ys)"
  proof (cases "h1 = []")
    case False
    then show ?thesis using sort_loop_after_fill[OF fill False] r by simp
  next
    case True
    have "frs' = []"
    proof (rule ccontr)
      assume "frs' \<noteq> []"
      then obtain kx where "kx \<in> set frs'" by (cases frs') auto
      then have "staged R h1 kx" using drain_invD(4)[OF inv] by simp
      then show False using True by (simp add: staged_def)
    qed
    then have "ys = []" using m True by (simp add: pending_def)
    moreover have "sort_loop w c l lim (flat frs) [] outp = Some (Return None, outp)"
      using fill True by (subst sort_loop.simps) (simp add: Len_def)
    ultimately show ?thesis by simp
  qed
  have 2: "mset ys = pending frs" using m mh ms by simp
  have 3: "strict_weak_order l \<and> (\<forall>a b. R a b \<longrightarrow> \<not> l b a) \<longrightarrow>
             sorted_wrt (\<lambda>a b. \<not> l b a) ys"
  proof
    assume a: "strict_weak_order l \<and> (\<forall>a b. R a b \<longrightarrow> \<not> l b a)"
    then have "heap_upto l h1 (length h1)"
      unfolding h1_def using heap_upto_push_entries[OF _ heap_upto_Nil] by blast
    then show "sorted_wrt (\<lambda>a b. \<not> l b a) ys" using s a by blast
  qed
  show ?thesis using 1 2 3 by blast
qed

subsection \<open>The in-memory sort orders the buffer\<close>

lemma set_insert_sorted: "set (insert_sorted l x ys) = insert x (set ys)"
  by (induction ys) auto

lemma sorted_insert_sorted:
  assumes swo: "strict_weak_order l"
  shows "sorted_wrt (\<lambda>a b. \<not> l b a) ys \<Longrightarrow> sorted_wrt (\<lambda>a b. \<not> l b a) (insert_sorted l x ys)"
proof (induction ys)
  case Nil
  then show ?case by simp
next
  case (Cons y ys)
  show ?case
  proof (cases "l x y")
    case True
    have xy: "\<not> l y x" using swo_asym[OF swo True] .
    have "\<forall>z\<in>set ys. \<not> l z x"
    proof
      fix z assume "z \<in> set ys"
      then have "\<not> l z y" using Cons.prems by simp
      then show "\<not> l z x" using swo_le_trans[OF swo xy] by blast
    qed
    then show ?thesis using True xy Cons.prems by simp
  next
    case False
    then show ?thesis using Cons by (auto simp: set_insert_sorted)
  qed
qed

lemma sorted_sort_Sort:
  "strict_weak_order l \<Longrightarrow> sorted_wrt (\<lambda>a b. \<not> l b a) (sort_Sort l xs)"
  by (induction xs) (simp_all add: sort_Sort_def sorted_insert_sorted)

subsection \<open>From the records written to the runs on disk\<close>

lemma delimits_nonempty: "eof_at_end c \<Longrightarrow> delimits c x \<Longrightarrow> x \<noteq> []"
proof
  assume e: "eof_at_end c" and d: "delimits c x" and "x = []"
  then have "c (Some []) = Chunked [] None []" using d by (simp add: delimits_def)
  then show False using e by (auto simp: eof_at_end_def)
qed

lemma records_of_concat:
  assumes eof: "eof_at_end c"
  shows "\<forall>x\<in>set xs. delimits c x \<Longrightarrow> records_of c (concat xs) = xs"
proof (induction xs)
  case Nil
  obtain b rest where "c (Some []) = Chunked b (Some EOF) rest" using chunk_Nil[OF eof] by blast
  then show ?case by (subst records_of.simps) simp
next
  case (Cons x xs)
  have "c (Some (x @ concat xs)) = Chunked x None (concat xs)"
    using chunk_Cons[of c x xs] Cons.prems by simp
  moreover have "x \<noteq> []" using delimits_nonempty[OF eof] Cons.prems by simp
  ultimately show ?case using Cons by (subst records_of.simps) simp
qed

lemma spilled_flush:
  assumes sp: "spilled se runs"
  shows "spilled (snd (flushToTempFile SpillOk se))
           (runs @ [sort_Sort (lessFunc se) (memoryBuffer se)])"
proof -
  let ?new = "sort_Sort (lessFunc se) (memoryBuffer se)"
  have n: "tmpFilesNumber se = length runs" using sp by (simp add: spilled_def)
  have free: "tmpDir se (length runs) = None" using sp by (simp add: spilled_def)
  have t: "tmpDir (snd (flushToTempFile SpillOk se)) = (tmpDir se)(length runs \<mapsto> concat ?new)"
    using free by (simp add: flushToTempFile_ok write_file_def n)
  show ?thesis
    unfolding spilled_def
  proof (intro conjI allI impI)
    show "tmpFilesNumber (snd (flushToTempFile SpillOk se)) = length (runs @ [?new])"
      by (simp add: flushToTempFile_ok n)
  next
    fix i assume "i < length (runs @ [?new])"
    then consider "i < length runs" | "i = length runs" by fastforce
    then show "tmpDir (snd (flushToTempFile SpillOk se)) i = Some (concat ((runs @ [?new]) ! i))"
    proof cases
      case 1
      then show ?thesis using sp by (simp add: t spilled_def nth_append)
    next
      case 2
      then show ?thesis by (simp add: t)
    qed
  next
    fix i assume "length (runs @ [?new]) \<le> i"
    then show "tmpDir (snd (flushToTempFile SpillOk se)) i = None"
      using sp by (simp add: t spilled_def)
  qed
qed

lemma Writes_spill_runs:
  assumes new: "New None out0 c l M = Inr se0"
  shows "\<exists>runs. spill_runs (Writes SpillOk rs se0) runs rs"
proof (induction rs rule: rev_induct)
  case Nil
  have "spill_runs se0 [] []"
    using New_fresh[OF new] by (simp add: spill_runs_def spilled_def buffer_inv_def)
  then show ?case by (auto simp: Writes_def)
next
  case (snoc r rs)
  let ?se = "Writes SpillOk rs se0"
  let ?se1 = "?se\<lparr>memoryBuffer := memoryBuffer ?se @ [r], memUsed := memUsed ?se + int (length r)\<rparr>"
  obtain runs where IH: "spill_runs ?se runs rs" using snoc by blast
  have sp1: "spilled ?se1 runs" using IH by (simp add: spill_runs_def spilled_def)
  have bi1: "buffer_inv ?se1" using IH by (simp add: spill_runs_def buffer_inv_def)
  have ms1: "mset (concat runs) + mset (memoryBuffer ?se1) = mset (rs @ [r])"
    using IH by (simp add: spill_runs_def)
  have W: "Writes SpillOk (rs @ [r]) se0 =
             (if memLimit ?se1 \<le> memUsed ?se1 then snd (flushToTempFile SpillOk ?se1) else ?se1)"
    by (simp add: Writes_snoc Write_def Let_def flushToTempFile_ok)
  show ?case
  proof (cases "memLimit ?se1 \<le> memUsed ?se1")
    case False
    then have "spill_runs (Writes SpillOk (rs @ [r]) se0) runs (rs @ [r])"
      using W sp1 bi1 ms1 IH by (simp add: spill_runs_def)
    then show ?thesis by blast
  next
    case True
    let ?new = "sort_Sort (lessFunc ?se1) (memoryBuffer ?se1)"
    let ?se2 = "snd (flushToTempFile SpillOk ?se1)"
    have W2: "Writes SpillOk (rs @ [r]) se0 = ?se2" using W True by simp
    have a: "spilled ?se2 (runs @ [?new])" using spilled_flush[OF sp1] .
    have b: "buffer_inv ?se2" using buffer_inv_flushToTempFile[OF bi1] .
    have c: "mset (concat (runs @ [?new])) + mset (memoryBuffer ?se2) = mset (rs @ [r])"
      using ms1 by (simp add: flushToTempFile_ok mset_sort_Sort)
    have len: "int (length (concat ?new)) = memUsed ?se1"
      using bi1 by (simp add: buffer_inv_def length_concat sum_length_sort_Sort)
    have "mset ?new \<noteq> {#}" by (simp add: mset_sort_Sort)
    then have ne: "?new \<noteq> []" by auto
    have f: "memLimit ?se2 = memLimit ?se" "lessFunc ?se2 = lessFunc ?se"
      by (simp_all add: flushToTempFile_fields)
    have d: "\<forall>run\<in>set (runs @ [?new]). run \<noteq> [] \<and> memLimit ?se2 \<le> int (length (concat run)) \<and>
                        (\<exists>buf. run = sort_Sort (lessFunc ?se2) buf)"
    proof
      fix run assume "run \<in> set (runs @ [?new])"
      then consider "run \<in> set runs" | "run = ?new" by auto
      then show "run \<noteq> [] \<and> memLimit ?se2 \<le> int (length (concat run)) \<and>
                        (\<exists>buf. run = sort_Sort (lessFunc ?se2) buf)"
      proof cases
        case 1
        then show ?thesis using IH f by (simp add: spill_runs_def)
      next
        case 2
        have "memLimit ?se2 \<le> int (length (concat ?new))" using True len f by simp
        moreover have "\<exists>buf. ?new = sort_Sort (lessFunc ?se2) buf" using f by auto
        ultimately show ?thesis using 2 ne by simp
      qed
    qed
    have "spill_runs ?se2 (runs @ [?new]) (rs @ [r])"
      unfolding spill_runs_def using a b c d by blast
    then show ?thesis using W2 by auto
  qed
qed

lemma sdiv_budget_le:
  assumes "M \<le> int len" and "0 < len"
  shows "M sdiv (int n + 1) \<le> int len"
proof (cases "0 \<le> M")
  case True
  then have "M sdiv (int n + 1) = M div (int n + 1)"
    by (simp add: signed_divide_int_def sgn_if)
  also have "\<dots> \<le> M div 1"
    using True by (intro zdiv_mono2) simp_all
  finally show ?thesis using assms(1) by simp
next
  case False
  then have "M sdiv (int n + 1) = - (\<bar>M\<bar> div (int n + 1))"
    by (simp add: signed_divide_int_def sgn_if)
  also have "\<dots> \<le> 0" by (simp add: pos_imp_zdiv_nonneg_iff)
  finally show ?thesis by simp
qed

lemma open_files_spilled:
  assumes "\<forall>i. openErr i = None" and "\<forall>i\<in>set js. dir i = Some (concat (runs ! i))"
  shows "open_files openErr dir js = Inr (flat (map (\<lambda>i. (i, runs ! i)) js))"
  using assms(2) by (induction js) (simp_all add: assms(1) flat_def)

lemma run_files_props:
  "map fst (run_files runs) = [0..<length runs]"
  "pending (run_files runs) = mset (concat runs)"
  "kx \<in> set (run_files runs) \<Longrightarrow> fst kx < length runs \<and> snd kx = runs ! fst kx"
proof -
  show "map fst (run_files runs) = [0..<length runs]"
    by (simp add: run_files_def comp_def)
  have "map snd (run_files runs) = map (\<lambda>i. runs ! i) [0..<length runs]"
    by (simp add: run_files_def comp_def)
  then have "map snd (run_files runs) = runs" by (simp add: map_nth)
  then show "pending (run_files runs) = mset (concat runs)" by (simp add: pending_def)
  show "kx \<in> set (run_files runs) \<Longrightarrow> fst kx < length runs \<and> snd kx = runs ! fst kx"
    by (auto simp: run_files_def)
qed

lemma Close_flush_spill_runs:
  assumes sr: "spill_runs se runs rs" and ne: "\<forall>r\<in>set rs. r \<noteq> []" and ok: "flush_io env = SpillOk"
  shows "\<exists>runs' se1. Close_flush env se = (None, se1) \<and> spilled se1 runs' \<and>
           mset (concat runs') = mset rs \<and>
           (\<forall>i. Suc i < length runs' \<longrightarrow>
                runs' ! i \<noteq> [] \<and> memLimit se \<le> int (length (concat (runs' ! i)))) \<and>
           (\<forall>run\<in>set runs'. \<exists>buf. run = sort_Sort (lessFunc se) buf) \<and>
           memLimit se1 = memLimit se \<and> lessFunc se1 = lessFunc se \<and>
           chunkFunc se1 = chunkFunc se \<and> out se1 = out se"
proof (cases "0 < memUsed se")
  case True
  let ?new = "sort_Sort (lessFunc se) (memoryBuffer se)"
  let ?se1 = "snd (flushToTempFile SpillOk se)"
  have cf: "Close_flush env se = (None, ?se1)"
    using True ok by (simp add: Close_flush_def flushToTempFile_ok)
  have sp: "spilled ?se1 (runs @ [?new])"
    using spilled_flush sr by (simp add: spill_runs_def)
  have ms: "mset (concat (runs @ [?new])) = mset rs"
    using sr by (simp add: spill_runs_def mset_sort_Sort)
  have b: "\<forall>i. Suc i < length (runs @ [?new]) \<longrightarrow>
                (runs @ [?new]) ! i \<noteq> [] \<and>
                memLimit se \<le> int (length (concat ((runs @ [?new]) ! i)))"
  proof (intro allI impI)
    fix i assume "Suc i < length (runs @ [?new])"
    then have i: "i < length runs" by simp
    then have "runs ! i \<in> set runs" by simp
    then show "(runs @ [?new]) ! i \<noteq> [] \<and>
                memLimit se \<le> int (length (concat ((runs @ [?new]) ! i)))"
      using sr i by (simp add: spill_runs_def nth_append)
  qed
  have s: "\<forall>run\<in>set (runs @ [?new]). \<exists>buf. run = sort_Sort (lessFunc se) buf"
    using sr by (auto simp: spill_runs_def)
  show ?thesis
    apply (rule exI[of _ "runs @ [?new]"])
    apply (rule exI[of _ ?se1])
    using cf sp ms b s by (simp add: flushToTempFile_fields)
next
  case False
  have "sum_list (map length (memoryBuffer se)) = 0"
    using sr False by (simp add: spill_runs_def buffer_inv_def)
  then have z: "\<forall>r\<in>set (memoryBuffer se). r = []" by simp
  have "set (memoryBuffer se) \<subseteq> set rs"
  proof -
    have "mset (memoryBuffer se) \<subseteq># mset rs"
      using sr by (metis spill_runs_def mset_subset_eq_add_right)
    then show ?thesis by (metis set_mset_mono set_mset_mset)
  qed
  then have "memoryBuffer se = []" using z ne by (cases "memoryBuffer se") auto
  then have ms: "mset (concat runs) = mset rs" using sr by (simp add: spill_runs_def)
  have cf: "Close_flush env se = (None, se)" using False by (simp add: Close_flush_def)
  have b: "\<forall>i. Suc i < length runs \<longrightarrow>
                runs ! i \<noteq> [] \<and> memLimit se \<le> int (length (concat (runs ! i)))"
  proof (intro allI impI)
    fix i assume "Suc i < length runs"
    then have "runs ! i \<in> set runs" by simp
    then show "runs ! i \<noteq> [] \<and> memLimit se \<le> int (length (concat (runs ! i)))"
      using sr by (simp add: spill_runs_def)
  qed
  show ?thesis
    apply (rule exI[of _ runs])
    apply (rule exI[of _ se])
    using cf ms b sr by (simp add: spill_runs_def)
qed

lemma Close_merge:
  assumes "Close_flush env se = (None, se1)" and "tmpFilesNumber se1 \<noteq> 1"
    and "open_files (open_err env) (tmpDir se1) [0..<tmpFilesNumber se1] = Inr fs"
    and "sort_loop (write_err env) (chunkFunc se1) (lessFunc se1)
           (memLimit se1 sdiv (int (tmpFilesNumber se1) + 1)) fs NewHeap (out se1) =
         Some (Return None, outp)"
    and "sort_remove_err env = None" and "close_remove_err env = None"
  shows "Close env se =
     Some (Return (case out_closer env of Some closeErr \<Rightarrow> closeErr | None \<Rightarrow> None),
           se1\<lparr>memoryBuffer := [], out := outp, tmpDir := Map.empty\<rparr>)"
proof -
  have s: "sortEngine_sort env (se1\<lparr>memoryBuffer := []\<rparr>) fs =
             Some (Return None, se1\<lparr>memoryBuffer := [], out := outp, tmpDir := Map.empty\<rparr>)"
    using assms(4,5)
    by (simp add: sortEngine_sort_def deferred_removeTempFiles_def removeTempFiles_def)
  have "Close_body env se =
     Some (Return (case out_closer env of Some closeErr \<Rightarrow> closeErr | None \<Rightarrow> None),
           se1\<lparr>memoryBuffer := [], out := outp, tmpDir := Map.empty\<rparr>)"
    using assms(1,2,3) s by (simp add: Close_body_def split: option.splits)
  then show ?thesis
    using assms(6) by (simp add: Close_def deferred_removeTempFiles_def removeTempFiles_def)
qed

lemma Close_external_sort:
  assumes eof: "eof_at_end c" and del: "\<forall>r\<in>set rs. delimits c r"
    and new: "New None out0 c l M = Inr se0" and ok: "io_succeeds env"
    and Rs: "\<forall>xs. sorted_wrt R (sort_Sort l xs)"
  shows "\<exists>ys se'.
     Close env (Writes SpillOk rs se0) =
       Some (Return (case out_closer env of Some closeErr \<Rightarrow> closeErr | None \<Rightarrow> None), se') \<and>
     concat (out se') = concat out0 @ concat ys \<and>
     mset ys = mset rs \<and>
     (strict_weak_order l \<and> (\<forall>a b. R a b \<longrightarrow> \<not> l b a) \<longrightarrow> sorted_wrt (\<lambda>a b. \<not> l b a) ys)"
proof -
  define se where "se = Writes SpillOk rs se0"
  have f0: "memLimit se = M" "lessFunc se = l" "chunkFunc se = c" "out se = out0"
    using New_fresh[OF new] by (simp_all add: se_def Writes_fields)
  obtain runs0 where sr: "spill_runs se runs0 rs"
    using Writes_spill_runs[OF new] se_def by blast
  have ne: "\<forall>r\<in>set rs. r \<noteq> []" using del delimits_nonempty[OF eof] by blast
  have fl: "flush_io env = SpillOk" using ok by (simp add: io_succeeds_def)
  from Close_flush_spill_runs[OF sr ne fl]
  obtain runs se1 where cf: "Close_flush env se = (None, se1)"
    and sp: "spilled se1 runs" and ms: "mset (concat runs) = mset rs"
    and bud: "\<forall>i. Suc i < length runs \<longrightarrow>
                runs ! i \<noteq> [] \<and> memLimit se \<le> int (length (concat (runs ! i)))"
    and srt: "\<forall>run\<in>set runs. \<exists>buf. run = sort_Sort (lessFunc se) buf"
    and f1: "memLimit se1 = memLimit se" "lessFunc se1 = lessFunc se"
            "chunkFunc se1 = chunkFunc se" "out se1 = out se"
    by blast
  have n: "tmpFilesNumber se1 = length runs" using sp by (simp add: spilled_def)
  have files: "\<forall>i<length runs. tmpDir se1 i = Some (concat (runs ! i))"
    using sp by (simp add: spilled_def)
  have oe: "\<forall>i. open_err env i = None" using ok by (simp add: io_succeeds_def)
  have op: "open_files (open_err env) (tmpDir se1) [0..<tmpFilesNumber se1] = Inr (flat (run_files runs))"
    unfolding n run_files_def using files by (intro open_files_spilled[OF oe]) simp
  have dl: "\<forall>run\<in>set runs. \<forall>x\<in>set run. delimits c x"
  proof (intro ballI)
    fix run x assume "run \<in> set runs" "x \<in> set run"
    then have "x \<in> set (concat runs)" by auto
    then have "x \<in> set rs" using ms by (metis set_mset_mset)
    then show "delimits c x" using del by simp
  qed
  have sR: "\<forall>run\<in>set runs. sorted_wrt R run" using srt Rs f0 by auto
  have sle: "strict_weak_order l \<and> (\<forall>a b. R a b \<longrightarrow> \<not> l b a) \<longrightarrow>
               (\<forall>run\<in>set runs. sorted_wrt (\<lambda>a b. \<not> l b a) run)"
    using srt sorted_sort_Sort f0 by auto
  show ?thesis
  proof (cases "length runs = 1")
    case True
    then obtain run where run: "runs = [run]" by (cases runs) auto
    have t0: "tmpDir se1 0 = Some (concat run)" using files run by simp
    have "Close env se =
       Some (Return (case out_closer env of Some closeErr \<Rightarrow> closeErr | None \<Rightarrow> None),
             se1\<lparr>memoryBuffer := [],
                 out := (if concat run = [] then out se else out se @ [concat run]),
                 tmpDir := Map.empty\<rparr>)"
      using Close_one_run[OF cf _ _ t0] n True oe ok
      by (simp add: io_succeeds_def deferred_removeTempFiles_def removeTempFiles_def)
    moreover have "mset run = mset rs" using ms run by simp
    moreover have "strict_weak_order l \<and> (\<forall>a b. R a b \<longrightarrow> \<not> l b a) \<longrightarrow>
                     sorted_wrt (\<lambda>a b. \<not> l b a) run"
      using sle run by simp
    ultimately show ?thesis
      unfolding se_def[symmetric]
      apply (intro exI[of _ run])
      apply (intro exI[of _ "se1\<lparr>memoryBuffer := [],
                 out := (if concat run = [] then out se else out se @ [concat run]),
                 tmpDir := Map.empty\<rparr>"])
      using f0 by simp
  next
    case False
    have keys: "map fst (run_files runs) = [0..<length runs]" using run_files_props(1) .
    have rn: "\<forall>kx\<in>set (run_files runs). (\<forall>x\<in>set (snd kx). delimits c x) \<and> sorted_wrt R (snd kx)"
    proof
      fix kx assume "kx \<in> set (run_files runs)"
      then have "fst kx < length runs" "snd kx = runs ! fst kx"
        using run_files_props(3) by blast+
      then have "snd kx \<in> set runs" by simp
      then show "(\<forall>x\<in>set (snd kx). delimits c x) \<and> sorted_wrt R (snd kx)"
        using dl sR by blast
    qed
    let ?lim = "memLimit se1 sdiv (int (tmpFilesNumber se1) + 1)"
    have bd: "\<forall>kx\<in>set (run_files runs). Suc (fst kx) < length runs \<longrightarrow>
                   snd kx \<noteq> [] \<and> ?lim \<le> int (length (concat (snd kx)))"
    proof (intro ballI impI)
      fix kx assume kx: "kx \<in> set (run_files runs)" and s: "Suc (fst kx) < length runs"
      have sk: "snd kx = runs ! fst kx" and lt: "fst kx < length runs"
        using run_files_props(3)[OF kx] by simp_all
      have b: "snd kx \<noteq> []" "memLimit se \<le> int (length (concat (snd kx)))"
        using bud s sk by simp_all
      obtain x xs where x: "snd kx = x # xs" using b(1) by (cases "snd kx") auto
      have "snd kx \<in> set runs" using sk lt by simp
      then have "delimits c x" using dl x by force
      then have "x \<noteq> []" using delimits_nonempty[OF eof] by simp
      then have pos: "0 < length (concat (snd kx))" using x by simp
      have "?lim \<le> int (length (concat (snd kx)))"
        using sdiv_budget_le[OF _ pos, of "memLimit se1" "tmpFilesNumber se1"] b(2) f1(1) by simp
      then show "snd kx \<noteq> [] \<and> ?lim \<le> int (length (concat (snd kx)))" using b(1) by simp
    qed
    have we: "\<forall>k. write_err env k = None" using ok by (simp add: io_succeeds_def)
    from sort_loop_merge[OF eof we keys rn bd, of l "out se1"]
    obtain ys where
      r: "sort_loop (write_err env) c l ?lim (flat (run_files runs)) [] (out se1) =
            Some (Return None, out se1 @ ys)"
      and m: "mset ys = pending (run_files runs)"
      and s: "strict_weak_order l \<and> (\<forall>a b. R a b \<longrightarrow> \<not> l b a) \<longrightarrow>
             sorted_wrt (\<lambda>a b. \<not> l b a) ys"
      by blast
    have r': "sort_loop (write_err env) (chunkFunc se1) (lessFunc se1) ?lim
                (flat (run_files runs)) NewHeap (out se1) = Some (Return None, out se1 @ ys)"
      using r f0 f1 by (simp add: NewHeap_def)
    have "Close env se =
       Some (Return (case out_closer env of Some closeErr \<Rightarrow> closeErr | None \<Rightarrow> None),
             se1\<lparr>memoryBuffer := [], out := out se1 @ ys, tmpDir := Map.empty\<rparr>)"
      using Close_merge[OF cf _ op r'] n False ok by (simp add: io_succeeds_def)
    moreover have "mset ys = mset rs" using m ms run_files_props(2) by simp
    ultimately show ?thesis
      unfolding se_def[symmetric]
      apply (intro exI[of _ ys])
      apply (intro exI[of _ "se1\<lparr>memoryBuffer := [], out := out se1 @ ys, tmpDir := Map.empty\<rparr>"])
      using f0 f1 s by simp
  qed
qed

subsection \<open>The driver's strategies meet the contracts\<close>

lemma driver_lessFunc_simps:
  "driver_lessFunc [] [] = False"
  "driver_lessFunc [] (y # ys) = True"
  "driver_lessFunc (x # xs) [] = False"
  "driver_lessFunc (x # xs) (y # ys) =
     ((of_char x :: nat) < of_char y \<or> ((of_char x :: nat) = of_char y \<and> driver_lessFunc xs ys))"
  by (auto simp: driver_lessFunc_def)

lemma driver_lessFunc_irrefl: "\<not> driver_lessFunc a a"
  by (induction a) (simp_all add: driver_lessFunc_simps)

lemma driver_lessFunc_trans:
  "driver_lessFunc a b \<Longrightarrow> driver_lessFunc b c \<Longrightarrow> driver_lessFunc a c"
proof (induction a arbitrary: b c)
  case Nil
  then show ?case by (cases b; cases c) (simp_all add: driver_lessFunc_simps)
next
  case (Cons x xs)
  then show ?case
    by (cases b; cases c) (auto simp: driver_lessFunc_simps)
qed

lemma driver_lessFunc_negtrans:
  "\<not> driver_lessFunc a b \<Longrightarrow> \<not> driver_lessFunc b c \<Longrightarrow> \<not> driver_lessFunc a c"
proof (induction a arbitrary: b c)
  case Nil
  then show ?case by (cases b; cases c) (simp_all add: driver_lessFunc_simps)
next
  case (Cons x xs)
  then show ?case
    by (cases b; cases c) (auto simp: driver_lessFunc_simps)
qed

lemma strict_weak_order_driver: "strict_weak_order driver_lessFunc"
  unfolding strict_weak_order_def
  using driver_lessFunc_irrefl driver_lessFunc_trans driver_lessFunc_negtrans by blast

lemma eof_at_end_driver: "eof_at_end driver_chunkFunc"
  by (simp add: eof_at_end_def driver_chunkFunc_def)

lemma delimits_driver:
  assumes "CHR 0x0A \<notin> set line"
  shows "delimits driver_chunkFunc (line @ [CHR 0x0A])"
proof -
  have p: "\<And>x. x \<in> set line \<Longrightarrow> x \<noteq> CHR 0x0A" using assms by auto
  have d: "dropWhile (\<lambda>c. c \<noteq> CHR 0x0A) (line @ CHR 0x0A # rest) = CHR 0x0A # rest" for rest
    using dropWhile_append2[of line "\<lambda>c. c \<noteq> CHR 0x0A" "CHR 0x0A # rest"] p by simp
  have t: "takeWhile (\<lambda>c. c \<noteq> CHR 0x0A) (line @ CHR 0x0A # rest) = line" for rest
    using takeWhile_append2[of line "\<lambda>c. c \<noteq> CHR 0x0A" "CHR 0x0A # rest"] p by simp
  show ?thesis
    by (simp add: delimits_def driver_chunkFunc_def d t)
qed

lemma sorted_wrt_any: "sorted_wrt (\<lambda>a b. True) xs"
  by (induction xs) simp_all

lemma io_succeeds_ok_env: "io_succeeds ok_env"
  by (simp add: io_succeeds_def ok_env_def)

subsection \<open>Completeness and order of the output\<close>

text \<open>
  Claim C2.  Let the chunking strategy delimit every record written and report the end of a
  stream, and let no I/O call fail.  Then for every memory limit, \<^verbatim>\<open>Close\<close> after the writes
  returns, and the bytes it has appended to the sink are the concatenation of a list \<open>ys\<close> of
  records that the strategy splits back into \<open>ys\<close> and that has the same multiset of records
  as the list written: no record is lost and none is duplicated.
\<close>

theorem external_sort_complete:
  assumes "eof_at_end c" and "\<forall>r\<in>set rs. delimits c r"
    and "New None out0 c l M = Inr se0" and "io_succeeds env"
  shows "\<exists>ys se'.
     Close env (Writes SpillOk rs se0) =
       Some (Return (case out_closer env of Some closeErr \<Rightarrow> closeErr | None \<Rightarrow> None), se') \<and>
     concat (out se') = concat out0 @ concat ys \<and>
     records_of c (concat ys) = ys \<and>
     mset ys = mset rs"
proof -
  have "\<forall>xs. sorted_wrt (\<lambda>a b. True) (sort_Sort l xs)" by (simp add: sorted_wrt_any)
  from Close_external_sort[OF assms this]
  obtain ys se' where
    c: "Close env (Writes SpillOk rs se0) =
       Some (Return (case out_closer env of Some closeErr \<Rightarrow> closeErr | None \<Rightarrow> None), se')"
    and o: "concat (out se') = concat out0 @ concat ys" and m: "mset ys = mset rs"
    by blast
  have "set ys = set rs" using m by (metis set_mset_mset)
  then have "records_of c (concat ys) = ys"
    using records_of_concat[OF assms(1)] assms(2) by simp
  then show ?thesis using c o m by blast
qed

text \<open>
  Claim C1.  Under the same contract and for a comparison that is a strict weak ordering,
  the records \<open>ys\<close> that \<^verbatim>\<open>Close\<close> appends to the sink are in order: no record is less than the
  record before it.
\<close>

theorem external_sort_sorted:
  assumes "eof_at_end c" and "\<forall>r\<in>set rs. delimits c r"
    and "New None out0 c l M = Inr se0" and "io_succeeds env"
    and "strict_weak_order l"
  shows "\<exists>ys se'.
     Close env (Writes SpillOk rs se0) =
       Some (Return (case out_closer env of Some closeErr \<Rightarrow> closeErr | None \<Rightarrow> None), se') \<and>
     concat (out se') = concat out0 @ concat ys \<and>
     records_of c (concat ys) = ys \<and>
     successively (\<lambda>a b. \<not> l b a) ys \<and>
     (\<forall>i. Suc i < length ys \<longrightarrow> \<not> l (ys ! Suc i) (ys ! i))"
proof -
  have "\<forall>xs. sorted_wrt (\<lambda>a b. \<not> l b a) (sort_Sort l xs)"
    using sorted_sort_Sort[OF assms(5)] by simp
  from Close_external_sort[OF assms(1-4) this]
  obtain ys se' where
    c: "Close env (Writes SpillOk rs se0) =
       Some (Return (case out_closer env of Some closeErr \<Rightarrow> closeErr | None \<Rightarrow> None), se')"
    and o: "concat (out se') = concat out0 @ concat ys" and m: "mset ys = mset rs"
    and s: "sorted_wrt (\<lambda>a b. \<not> l b a) ys"
    using assms(5) by blast
  have "set ys = set rs" using m by (metis set_mset_mset)
  then have r: "records_of c (concat ys) = ys"
    using records_of_concat[OF assms(1)] assms(2) by simp
  have "\<forall>i. Suc i < length ys \<longrightarrow> \<not> l (ys ! Suc i) (ys ! i)"
    using s by (simp add: sorted_wrt_iff_nth_less)
  moreover have "successively (\<lambda>a b. \<not> l b a) ys"
    using s by (rule successively_if_sorted_wrt)
  ultimately show ?thesis using c o r by blast
qed

theorem external_sort_complete_witness:
  "\<exists>ys se'.
     Close ok_env (Writes SpillOk [''b\<newline>'', ''a\<newline>'', ''c\<newline>''] (driver_engine 4)) =
       Some (Return None, se') \<and>
     concat (out se') = concat ys \<and>
     records_of driver_chunkFunc (concat ys) = ys \<and>
     mset ys = mset [''b\<newline>'', ''a\<newline>'', ''c\<newline>'']"
proof -
  have d: "\<forall>r\<in>set [''b\<newline>'', ''a\<newline>'', ''c\<newline>'']. delimits driver_chunkFunc r"
    using delimits_driver[of "''b''"] delimits_driver[of "''a''"] delimits_driver[of "''c''"]
    by simp
  have n: "New None [] driver_chunkFunc driver_lessFunc 4 = Inr (driver_engine 4)"
    by (simp add: New_def driver_engine_def)
  show ?thesis
    using external_sort_complete [OF eof_at_end_driver d n io_succeeds_ok_env]
    by (simp add: ok_env_def)
qed

theorem external_sort_sorted_witness:
  "\<exists>ys se'.
     Close ok_env (Writes SpillOk [''d\<newline>'', ''b\<newline>'', ''a\<newline>'', ''c\<newline>''] (driver_engine 4)) =
       Some (Return None, se') \<and>
     concat (out se') = concat ys \<and>
     records_of driver_chunkFunc (concat ys) = ys \<and>
     successively (\<lambda>a b. \<not> driver_lessFunc b a) ys"
proof -
  have d: "\<forall>r\<in>set [''d\<newline>'', ''b\<newline>'', ''a\<newline>'', ''c\<newline>'']. delimits driver_chunkFunc r"
    using delimits_driver[of "''b''"] delimits_driver[of "''a''"] delimits_driver[of "''c''"]
      delimits_driver[of "''d''"]
    by simp
  have n: "New None [] driver_chunkFunc driver_lessFunc 4 = Inr (driver_engine 4)"
    by (simp add: New_def driver_engine_def)
  show ?thesis
    using external_sort_sorted [OF eof_at_end_driver d n io_succeeds_ok_env strict_weak_order_driver]
    by (auto simp: ok_env_def)
qed

end
